theory Spec2Isabelle
  imports Main "HOL-Library.AList"
begin

section \<open>Credentials and scope identifiers\<close>

text \<open>
  The TypeScript interfaces have only optional string fields; an optional field is a
  \<open>string option\<close>, with \<open>None\<close> for \<open>undefined\<close> (a missing property). The
  parameter of \<open>getApiQueryParams\<close> is the structural type with the two identifier
  fields, \<open>AuthParams\<close> has these and four more, and \<open>BranchMcpConfig\<close> has the six
  fields of \<open>AuthParams\<close> and \<open>branch_url\<close>: the three are one chain of record
  extensions, so that every field keeps the name it has in the source and a larger object
  can be passed where a smaller one is expected, as TypeScript allows. The object literal
  returned by \<open>getResolvedAuth\<close> has exactly the six fields of \<open>AuthParams\<close>.
\<close>

record IdParams =
  app_id :: "string option"
  organization_id :: "string option"

record AuthParams = IdParams +
  api_key :: "string option"
  branch_key :: "string option"
  branch_secret :: "string option"
  auth_token :: "string option"

record BranchMcpConfig = AuthParams +
  branch_url :: "string option"

text \<open>The operator \<open>a ?? b\<close>: \<open>b\<close> only when \<open>a\<close> is \<open>undefined\<close>.\<close>

definition nullish :: "'a option \<Rightarrow> 'a option \<Rightarrow> 'a option" where
  "nullish a b = (case a of Some v \<Rightarrow> Some v | None \<Rightarrow> b)"

text \<open>
  The truthiness of an optional string, as \<open>if (params.app_id)\<close> tests it: \<open>undefined\<close>
  and the empty string are falsy, every other string is truthy.
\<close>

definition truthy_str :: "string option \<Rightarrow> bool" where
  "truthy_str a = (case a of None \<Rightarrow> False | Some s \<Rightarrow> s \<noteq> [])"

text \<open>\<open>getResolvedAuth\<close> of \<open>src/utils/auth.ts\<close>. The chain of \<open>??\<close> associates to the left.\<close>

definition getResolvedAuth :: "'a AuthParams_scheme \<Rightarrow> BranchMcpConfig \<Rightarrow> AuthParams" where
  "getResolvedAuth params config =
    (let resolvedApiKey =
           nullish (nullish (nullish (api_key params) (auth_token params)) (api_key config))
             (auth_token config);
         resolvedAppId = nullish (app_id params) (app_id config);
         resolvedOrgId = nullish (organization_id params) (organization_id config)
     in \<lparr> app_id = resolvedAppId,
          organization_id = resolvedOrgId,
          api_key = resolvedApiKey,
          branch_key = nullish (branch_key params) (branch_key config),
          branch_secret = nullish (branch_secret params) (branch_secret config),
          auth_token = resolvedApiKey \<rparr>)"

text \<open>
  \<open>getApiQueryParams\<close> of \<open>src/utils/apiQueryParameters.ts\<close>. The \<open>Record<string, string>\<close>
  it builds is a map from property names to strings, \<open>{}\<close> the empty map. Each assignment
  stores a value that the test before it found truthy, hence a string.
\<close>

definition getApiQueryParams :: "'a IdParams_scheme \<Rightarrow> BranchMcpConfig \<Rightarrow> (string \<rightharpoonup> string)" where
  "getApiQueryParams params config =
    (let queryParams = Map.empty;
         queryParams =
           (if truthy_str (app_id params) then queryParams(''app_id'' := app_id params)
            else if truthy_str (app_id config) then queryParams(''app_id'' := app_id config)
            else queryParams)
     in if truthy_str (queryParams ''app_id'') then queryParams
        else if truthy_str (organization_id params)
          then queryParams(''organization_id'' := organization_id params)
        else if truthy_str (organization_id config)
          then queryParams(''organization_id'' := organization_id config)
        else queryParams)"

text \<open>The first present value of a list of optional values, in the order of the list.\<close>

fun first_present :: "'a option list \<Rightarrow> 'a option" where
  "first_present [] = None"
| "first_present (None # xs) = first_present xs"
| "first_present (Some v # xs) = Some v"

text \<open>The first truthy one of two optional strings, absent when neither is truthy.\<close>

definition first_truthy :: "string option \<Rightarrow> string option \<Rightarrow> string option" where
  "first_truthy a b = (if truthy_str a then a else if truthy_str b then b else None)"

section \<open>JavaScript values\<close>

text \<open>
  The values the error helpers and the log redactor receive are of type \<open>unknown\<close>. They
  are modelled as trees of plain data, as \<open>JSON.parse\<close> builds them: the primitives,
  arrays, and objects as the list of their own enumerable data properties in enumeration
  order. Accessor properties, symbol keys, prototypes and instances of classes are not
  modelled. Numbers are integers (HTTP status codes and JSON integers); no function
  below does arithmetic on them.
\<close>

datatype jsval =
    JUndefined
  | JNull
  | JBool bool
  | JNum int
  | JStr string
  | JArr "jsval list"
  | JObj "(string \<times> jsval) list"

text \<open>
  Reading a named property, \<open>v.k\<close> or \<open>v?.k\<close>: a missing property reads as \<open>undefined\<close>,
  and so does every property of a primitive or an array that the code below asks for
  (\<open>message\<close>, \<open>error\<close>). On \<open>null\<close> and \<open>undefined\<close> the optional read \<open>v?.k\<close> gives
  \<open>undefined\<close>; the code uses the plain read \<open>v.k\<close> only behind a test that the receiver
  is truthy, where the two agree.
\<close>

fun js_get :: "jsval \<Rightarrow> string \<Rightarrow> jsval" where
  "js_get (JObj props) k = (case map_of props k of Some v \<Rightarrow> v | None \<Rightarrow> JUndefined)"
| "js_get v k = JUndefined"

text \<open>The truthiness of a value, as \<open>if (v)\<close> and \<open>a && b\<close> test it.\<close>

fun js_truthy :: "jsval \<Rightarrow> bool" where
  "js_truthy JUndefined = False"
| "js_truthy JNull = False"
| "js_truthy (JBool b) = b"
| "js_truthy (JNum n) = (n \<noteq> 0)"
| "js_truthy (JStr s) = (s \<noteq> [])"
| "js_truthy (JArr xs) = True"
| "js_truthy (JObj props) = True"

text \<open>The decimal notation of an integer, as a template literal prints a number.\<close>

fun digits :: "nat \<Rightarrow> string" where
  "digits n =
    (if n < 10 then [''0123456789'' ! n]
     else digits (n div 10) @ [''0123456789'' ! (n mod 10)])"

declare digits.simps [simp del]

definition number_to_string :: "int \<Rightarrow> string" where
  "number_to_string n = (if n < 0 then CHR ''-'' # digits (nat (- n)) else digits (nat n))"

fun join_comma :: "string list \<Rightarrow> string" where
  "join_comma [] = []"
| "join_comma [s] = s"
| "join_comma (s # t # ss) = s @ '','' @ join_comma (t # ss)"

text \<open>
  The conversion of a value to a string, which the constructor of \<open>Error\<close> applies to
  its message: a string is unchanged, an array prints its elements separated by commas
  with \<open>null\<close> and \<open>undefined\<close> elements empty, a plain object prints as
  \<open>[object Object]\<close>.
\<close>

fun js_to_string :: "jsval \<Rightarrow> string" where
  "js_to_string JUndefined = ''undefined''"
| "js_to_string JNull = ''null''"
| "js_to_string (JBool b) = (if b then ''true'' else ''false'')"
| "js_to_string (JNum n) = number_to_string n"
| "js_to_string (JStr s) = s"
| "js_to_string (JArr xs) =
    join_comma (map (\<lambda>x. if x = JUndefined \<or> x = JNull then [] else js_to_string x) xs)"
| "js_to_string (JObj props) = ''[object Object]''"

section \<open>The error taxonomy\<close>

text \<open>
  The body of a response as axios delivers it. With the default response type the
  body is parsed: a tree of plain data, or a string when it is not JSON. A request
  sent with \<open>responseType: 'arraybuffer'\<close> gets the bytes of the body in a \<open>Buffer\<close>,
  whatever the server sent.
\<close>

datatype response_data = Parsed jsval | Buffer "nat list"

text \<open>
  The response an axios error carries when the server answered: the body, the status
  code and the status text. The type belongs to the axios library; its fields \<open>data\<close>,
  \<open>status\<close> and \<open>statusText\<close> are prefixed here to keep them apart from the fields
  of \<open>BranchApiError\<close>.
\<close>

record AxiosResponse =
  resp_data :: response_data
  resp_status :: int
  resp_statusText :: string

text \<open>
  A value caught by a \<open>catch\<close> clause: an \<open>AxiosError\<close> with its message and its optional
  response, another instance of \<open>Error\<close> (or of a subclass such as \<open>BranchApiError\<close>) with
  its message, or a value that is not an instance of \<open>Error\<close>.
\<close>

datatype thrown =
    AxiosError string "AxiosResponse option"
  | OtherError string
  | NonError jsval

text \<open>\<open>axios.isAxiosError\<close>, the type guard of the library: true of an \<open>AxiosError\<close> only.\<close>

fun isAxiosError :: "thrown \<Rightarrow> bool" where
  "isAxiosError (AxiosError m r) = True"
| "isAxiosError e = False"

text \<open>\<open>error.response\<close> of an axios error, \<open>undefined\<close> when no response was received.\<close>

fun response_of :: "thrown \<Rightarrow> AxiosResponse option" where
  "response_of (AxiosError m r) = r"
| "response_of e = None"

text \<open>
  \<open>isErrorWithMessage\<close> of \<open>src/utils/errors.ts\<close>: an object, not \<open>null\<close>, that has a
  property \<open>message\<close> whose value is a string. An array is an object without that
  property.
\<close>

fun isErrorWithMessage :: "thrown \<Rightarrow> bool" where
  "isErrorWithMessage (AxiosError m r) = True"
| "isErrorWithMessage (OtherError m) = True"
| "isErrorWithMessage (NonError (JObj props)) =
    (case map_of props ''message'' of Some (JStr m) \<Rightarrow> True | _ \<Rightarrow> False)"
| "isErrorWithMessage (NonError v) = False"

text \<open>
  \<open>getErrorMessage\<close> of \<open>src/utils/errors.ts\<close>, its four returns in the order of the
  source: an instance of \<open>Error\<close>, a value that passes \<open>isErrorWithMessage\<close>, a string,
  anything else. No branch reads a property of \<open>null\<close> or \<open>undefined\<close>, so there is no
  branch that throws.
\<close>

fun getErrorMessage :: "thrown \<Rightarrow> string" where
  "getErrorMessage (AxiosError m r) = m"
| "getErrorMessage (OtherError m) = m"
| "getErrorMessage (NonError v) =
    (if isErrorWithMessage (NonError v) then js_to_string (js_get v ''message'')
     else (case v of JStr s \<Rightarrow> s | _ \<Rightarrow> ''Unknown error occurred''))"

text \<open>
  \<open>BranchApiError\<close> of \<open>src/utils/errors.ts\<close>: the message of the \<open>Error\<close> it extends, an
  optional status and an optional response. The options of its constructor have the
  fields \<open>status\<close> and \<open>response\<close> (and \<open>cause\<close>, which the constructor does not read).
\<close>

record ErrorOptions =
  status :: "int option"
  response :: "AxiosResponse option"

record BranchApiError = ErrorOptions +
  message :: string

text \<open>
  The constructor: \<open>super(message)\<close> stores the message converted to a string (the
  empty string of the prototype when it is \<open>undefined\<close>), then \<open>options?.status\<close> and
  \<open>options?.response\<close> are stored.
\<close>

definition new_BranchApiError :: "jsval \<Rightarrow> ErrorOptions option \<Rightarrow> BranchApiError" where
  "new_BranchApiError msg options =
    \<lparr> status = (case options of None \<Rightarrow> None | Some opts \<Rightarrow> status opts),
      response = (case options of None \<Rightarrow> None | Some opts \<Rightarrow> response opts),
      message = (if msg = JUndefined then [] else js_to_string msg) \<rparr>"

text \<open>
  \<open>handleApiError\<close> of \<open>src/utils/api.ts\<close>. It never returns: the value of the model is
  the \<open>BranchApiError\<close> it throws. A response, being an object, is truthy.
\<close>

definition handleApiError :: "thrown \<Rightarrow> BranchApiError" where
  "handleApiError error =
    (case (isAxiosError error, response_of error) of
       (True, Some r) \<Rightarrow>
         new_BranchApiError
           (JStr (''Branch API error: '' @ number_to_string (resp_status r) @ '' ''
                   @ resp_statusText r))
           (Some \<lparr> status = Some (resp_status r), response = Some r \<rparr>)
     | _ \<Rightarrow> new_BranchApiError (JStr (''Branch API error: '' @ getErrorMessage error)) None)"

text \<open>
  \<open>error.response?.data?.error?.message\<close>, \<open>undefined\<close> when a link of the chain is. A
  \<open>Buffer\<close> has no property \<open>error\<close>.
\<close>

definition nested_error_message :: "thrown \<Rightarrow> jsval" where
  "nested_error_message error =
    (case response_of error of
       None \<Rightarrow> JUndefined
     | Some r \<Rightarrow>
        (case resp_data r of
           Parsed d \<Rightarrow> js_get (js_get d ''error'') ''message''
         | Buffer bytes \<Rightarrow> JUndefined))"

text \<open>
  The \<open>catch\<close> clause of the tool \<open>branch_create_quick_link\<close> in \<open>src/apis/quick-links.ts\<close>;
  the value of the model is the \<open>BranchApiError\<close> the clause throws. The clauses of
  \<open>branch_update_quick_link\<close> and \<open>branch_bulk_create_quick_links\<close> differ from it in the
  text they log only.
\<close>

definition branch_create_quick_link_catch :: "thrown \<Rightarrow> BranchApiError" where
  "branch_create_quick_link_catch error =
    (let message = JStr (getErrorMessage error);
         message = (if isAxiosError error \<and> js_truthy (nested_error_message error)
                    then nested_error_message error else message)
     in if isAxiosError error
        then new_BranchApiError message
          (Some \<lparr> status = Some (case response_of error of Some r \<Rightarrow> resp_status r | None \<Rightarrow> 0),
                  response = response_of error \<rparr>)
        else new_BranchApiError message (Some \<lparr> status = Some 0, response = None \<rparr>))"

text \<open>
  The \<open>catch\<close> clause of the tool \<open>branch_create_qr_code\<close> in \<open>src/apis/qr-code.ts\<close>, of
  the same text. The request in its \<open>try\<close> block is sent with
  \<open>responseType: 'arraybuffer'\<close>, so the body of a response it catches is a \<open>Buffer\<close>.
\<close>

definition branch_create_qr_code_catch :: "thrown \<Rightarrow> BranchApiError" where
  "branch_create_qr_code_catch error =
    (let message = JStr (getErrorMessage error);
         message = (if isAxiosError error \<and> js_truthy (nested_error_message error)
                    then nested_error_message error else message)
     in if isAxiosError error
        then new_BranchApiError message
          (Some \<lparr> status = Some (case response_of error of Some r \<Rightarrow> resp_status r | None \<Rightarrow> 0),
                  response = response_of error \<rparr>)
        else new_BranchApiError message (Some \<lparr> status = Some 0, response = None \<rparr>))"



definition network_error :: thrown where
  "network_error = AxiosError ''Network Error'' None"

section \<open>The log redactor\<close>

text \<open>The constants of \<open>src/utils/logger.ts\<close>.\<close>

definition SENSITIVE_KEYS :: "string list" where
  "SENSITIVE_KEYS =
    [''branch_secret'', ''branch_key'', ''api_key'', ''auth_token'', ''app_id'',
     ''organization_id'']"

definition REDACTED_PLACEHOLDER :: string where
  "REDACTED_PLACEHOLDER = ''[REDACTED]''"

text \<open>
  The assignment \<open>newObj[key] = v\<close> to an object made by \<open>{}\<close>. For an ordinary name
  it replaces the value of a property that is there and appends a property that is not
  (\<open>AList.update\<close>). The name \<open>__proto__\<close> is not ordinary: the assignment finds the
  accessor of that name on \<open>Object.prototype\<close> and calls its setter, which sets the
  prototype of \<open>newObj\<close> when \<open>v\<close> is an object or \<open>null\<close> and does nothing otherwise; in
  both cases \<open>newObj\<close> gets no property, and its list of own properties stays as it is.
\<close>

definition js_assign :: "(string \<times> jsval) list \<Rightarrow> string \<Rightarrow> jsval \<Rightarrow> (string \<times> jsval) list" where
  "js_assign newObj key v = (if key = ''__proto__'' then newObj else AList.update key v newObj)"

text \<open>
  \<open>sanitizeLogObject\<close> of \<open>src/utils/logger.ts\<close> on a tree of plain data. A value that is
  not an object, and \<open>null\<close>, is returned as it is; an array is mapped; for an object the
  loop \<open>for (const key in obj)\<close> runs over the own properties in enumeration order and
  assigns each to \<open>newObj\<close>, which starts empty. The recursive call is made for keys outside
  \<open>SENSITIVE_KEYS\<close> only.
\<close>

fun sanitizeLogObject :: "jsval \<Rightarrow> jsval" where
  "sanitizeLogObject JUndefined = JUndefined"
| "sanitizeLogObject JNull = JNull"
| "sanitizeLogObject (JBool b) = JBool b"
| "sanitizeLogObject (JNum n) = JNum n"
| "sanitizeLogObject (JStr s) = JStr s"
| "sanitizeLogObject (JArr xs) = JArr (map sanitizeLogObject xs)"
| "sanitizeLogObject (JObj props) =
    JObj (foldl
      (\<lambda>newObj (key, v).
         if key \<in> set SENSITIVE_KEYS
         then js_assign newObj key (JStr REDACTED_PLACEHOLDER)
         else js_assign newObj key (sanitizeLogObject v))
      [] props)"

text \<open>
  Every JavaScript object has each property name once, so the keys of an object of the
  model are distinct. \<open>wf_val\<close> asks for that, and that no property is named
  \<open>__proto__\<close>: these are the values on which every assignment of the loop adds a
  property.
\<close>

fun wf_val :: "jsval \<Rightarrow> bool" where
  "wf_val (JArr xs) = list_all wf_val xs"
| "wf_val (JObj props) =
    (distinct (map fst props) \<and> ''__proto__'' \<notin> set (map fst props)
     \<and> list_all (\<lambda>(k, v). wf_val v) props)"
| "wf_val v = True"

text \<open>
  A position in a value is a path of property names and array indices;
  \<open>get_path v p\<close> is the value at the path \<open>p\<close>, \<open>None\<close> when \<open>v\<close> has no such position.
\<close>

datatype step = Key string | Index nat

fun get_path :: "jsval \<Rightarrow> step list \<Rightarrow> jsval option" where
  "get_path v [] = Some v"
| "get_path (JObj props) (Key k # p) =
    (case map_of props k of None \<Rightarrow> None | Some v \<Rightarrow> get_path v p)"
| "get_path (JArr xs) (Index i # p) = (if i < length xs then get_path (xs ! i) p else None)"
| "get_path v (s # p) = None"

fun sensitive_step :: "step \<Rightarrow> bool" where
  "sensitive_step (Key k) = (k \<in> set SENSITIVE_KEYS)"
| "sensitive_step (Index i) = False"

text \<open>Whether a sensitive key occurs anywhere in a value.\<close>

fun has_sensitive_key :: "jsval \<Rightarrow> bool" where
  "has_sensitive_key (JArr xs) = list_ex has_sensitive_key xs"
| "has_sensitive_key (JObj props) =
    list_ex (\<lambda>(k, v). k \<in> set SENSITIVE_KEYS \<or> has_sensitive_key v) props"
| "has_sensitive_key v = False"

text \<open>
  The log record
  \<open>{branch_key: "k", nested: {auth_token: "t", ok: "v"}, items: [{api_key: "a", n: 1}]}\<close>,
  and the value \<open>JSON.parse('{"__proto__": "x", "note": "n"}')\<close>, an object with the two
  own properties \<open>__proto__\<close> and \<open>note\<close>.
\<close>

definition proto_record :: jsval where
  "proto_record = JObj [(''__proto__'', JStr ''x''), (''note'', JStr ''n'')]"

definition log_record :: jsval where
  "log_record =
    JObj [(''branch_key'', JStr ''k''),
          (''nested'', JObj [(''auth_token'', JStr ''t''), (''ok'', JStr ''v'')]),
          (''items'', JArr [JObj [(''api_key'', JStr ''a''), (''n'', JNum 1)]])]"

section \<open>The log redactor on a store of objects\<close>

text \<open>
  Whether \<open>sanitizeLogObject\<close> changes its argument cannot be asked of a function on
  trees. Here objects and arrays live in a store: a value is a primitive or the address
  of a cell, a cell is an array or an object, the store is the list of all cells and an
  address is an index into it. Allocation appends a cell, so the address of a new cell is
  the length of the store before.
\<close>

type_synonym addr = nat

datatype hval = HUndefined | HNull | HBool bool | HNum int | HStr string | HRef addr

datatype hobj = HArray "hval list" | HObject "(string \<times> hval) list"

type_synonym heap = "hobj list"

definition alloc :: "heap \<Rightarrow> hobj \<Rightarrow> heap \<times> addr" where
  "alloc h obj = (h @ [obj], length h)"

text \<open>
  \<open>own_property h a key\<close> is the value of \<open>obj[key]\<close> when
  \<open>Object.prototype.hasOwnProperty.call(obj, key)\<close> holds, for the object at \<open>a\<close> in the
  store as it is now; \<open>set_property\<close> is the assignment \<open>newObj[key] = v\<close>: the value of
  a property that is there is replaced, a property that is not there is added after the
  others, and for the name \<open>__proto__\<close> no property is written (the cells of the store
  hold own properties only, and the setter of that name changes the prototype of
  \<open>newObj\<close> at most).
\<close>

definition own_property :: "heap \<Rightarrow> addr \<Rightarrow> string \<Rightarrow> hval option" where
  "own_property h a key =
    (if a < length h then (case h ! a of HObject props \<Rightarrow> map_of props key | HArray xs \<Rightarrow> None)
     else None)"

definition set_property :: "heap \<Rightarrow> addr \<Rightarrow> string \<Rightarrow> hval \<Rightarrow> heap" where
  "set_property h a key v =
    (if key = ''__proto__'' then h
     else if a < length h
     then (case h ! a of
             HObject props \<Rightarrow> h[a := HObject (AList.update key v props)]
           | HArray xs \<Rightarrow> h)
     else h)"

text \<open>The element \<open>k\<close> of the array at \<open>a\<close>, when it has one, and the store \<open>A[k] = v\<close>.\<close>

definition element :: "heap \<Rightarrow> addr \<Rightarrow> nat \<Rightarrow> hval option" where
  "element h a k =
    (if a < length h
     then (case h ! a of HArray xs \<Rightarrow> (if k < length xs then Some (xs ! k) else None)
           | HObject props \<Rightarrow> None)
     else None)"

definition set_element :: "heap \<Rightarrow> addr \<Rightarrow> nat \<Rightarrow> hval \<Rightarrow> heap" where
  "set_element h a k v =
    (if a < length h
     then (case h ! a of HArray xs \<Rightarrow> h[a := HArray (xs[k := v])] | HObject props \<Rightarrow> h)
     else h)"

text \<open>
  One round of \<open>Array.prototype.map\<close>: when the array \<open>obj\<close> has an element \<open>k\<close>, the
  callback is called on it and its result is stored at \<open>k\<close> of the new array \<open>A\<close>. The
  state of a loop is \<open>None\<close> once a call has not returned.
\<close>

definition map_step ::
  "(heap \<Rightarrow> hval \<Rightarrow> (heap \<times> hval) option) \<Rightarrow> addr \<Rightarrow> addr \<Rightarrow> nat \<Rightarrow> heap option \<Rightarrow> heap option" where
  "map_step callback obj A k st =
    (case st of
       None \<Rightarrow> None
     | Some h \<Rightarrow>
        (case element h obj k of
           None \<Rightarrow> Some h
         | Some kValue \<Rightarrow>
            (case callback h kValue of
               None \<Rightarrow> None
             | Some (h', mapped) \<Rightarrow> Some (set_element h' A k mapped))))"

text \<open>
  One round of the loop \<open>for (const key in obj)\<close>: the test of \<open>hasOwnProperty\<close>, the
  test of \<open>SENSITIVE_KEYS.includes(key)\<close>, and the assignment to \<open>newObj[key]\<close> of the
  placeholder or of the result of the recursive call on \<open>obj[key]\<close>.
\<close>

definition forin_step ::
  "(heap \<Rightarrow> hval \<Rightarrow> (heap \<times> hval) option) \<Rightarrow> addr \<Rightarrow> addr \<Rightarrow> string \<Rightarrow> heap option \<Rightarrow> heap option" where
  "forin_step recurse obj newObj key st =
    (case st of
       None \<Rightarrow> None
     | Some h \<Rightarrow>
        (case own_property h obj key of
           None \<Rightarrow> Some h
         | Some v \<Rightarrow>
            if key \<in> set SENSITIVE_KEYS
            then Some (set_property h newObj key (HStr REDACTED_PLACEHOLDER))
            else (case recurse h v of
                    None \<Rightarrow> None
                  | Some (h', r) \<Rightarrow> Some (set_property h' newObj key r))))"

text \<open>
  \<open>sanitizeLogObject\<close> on the store. A primitive is returned as it is. For an array,
  \<open>obj.map(sanitizeLogObject)\<close> allocates an array of the same length and runs over the
  indices; for an object, \<open>newObj\<close> is allocated empty and the loop runs over the keys
  the object has when the loop starts. The result is the new store and the value
  returned. The source may recurse without end, on a structure that contains itself:
  the first argument bounds the depth of the recursion, and the result is \<open>None\<close> when
  the bound is reached (or when an address points outside the store, which no
  JavaScript reference does).
\<close>

fun sanitizeLogObject_heap :: "nat \<Rightarrow> heap \<Rightarrow> hval \<Rightarrow> (heap \<times> hval) option" where
  "sanitizeLogObject_heap 0 h obj = None"
| "sanitizeLogObject_heap (Suc fuel) h obj =
    (case obj of
       HRef a \<Rightarrow>
        (if a < length h
         then (case h ! a of
                 HArray xs \<Rightarrow>
                  (let (h1, A) = alloc h (HArray (replicate (length xs) HUndefined))
                   in map_option (\<lambda>h'. (h', HRef A))
                        (fold (map_step (\<lambda>h v. sanitizeLogObject_heap fuel h v) a A)
                           [0..<length xs] (Some h1)))
               | HObject props \<Rightarrow>
                  (let (h1, newObj) = alloc h (HObject [])
                   in map_option (\<lambda>h'. (h', HRef newObj))
                        (fold (forin_step (\<lambda>h v. sanitizeLogObject_heap fuel h v) a newObj)
                           (map fst props) (Some h1))))
         else None)
     | _ \<Rightarrow> Some (h, obj))"

text \<open>The addresses a value and a cell hold.\<close>

fun refs_val :: "hval \<Rightarrow> addr set" where
  "refs_val (HRef a) = {a}"
| "refs_val v = {}"

fun refs_obj :: "hobj \<Rightarrow> addr set" where
  "refs_obj (HArray xs) = (\<Union>x \<in> set xs. refs_val x)"
| "refs_obj (HObject props) = (\<Union>p \<in> set props. refs_val (snd p))"

text \<open>
  \<open>repr h v t\<close>: in the store \<open>h\<close> the value \<open>v\<close> is the tree of plain data \<open>t\<close>. The
  structures that are some tree are the finite ones that do not contain themselves;
  two positions of a tree may be the same cell of the store.
\<close>

fun repr :: "heap \<Rightarrow> hval \<Rightarrow> jsval \<Rightarrow> bool" where
  "repr h v JUndefined = (v = HUndefined)"
| "repr h v JNull = (v = HNull)"
| "repr h v (JBool b) = (v = HBool b)"
| "repr h v (JNum n) = (v = HNum n)"
| "repr h v (JStr s) = (v = HStr s)"
| "repr h v (JArr ts) =
    (case v of
       HRef a \<Rightarrow> a < length h
         \<and> (case h ! a of HArray xs \<Rightarrow> list_all2 (repr h) xs ts | HObject props \<Rightarrow> False)
     | _ \<Rightarrow> False)"
| "repr h v (JObj tprops) =
    (case v of
       HRef a \<Rightarrow> a < length h
         \<and> (case h ! a of
               HObject props \<Rightarrow>
                 list_all2 (\<lambda>p q. fst p = fst q \<and> repr h (snd p) (snd q)) props tprops
             | HArray xs \<Rightarrow> False)
     | _ \<Rightarrow> False)"

text \<open>The height of a tree: the depth of recursion its redaction needs is one more.\<close>

fun depth :: "jsval \<Rightarrow> nat" where
  "depth (JArr ts) = Suc (fold max (map depth ts) 0)"
| "depth (JObj tprops) = Suc (fold max (map (\<lambda>(k, t). depth t) tprops) 0)"
| "depth v = 0"

text \<open>
  What a call leaves behind, from the store \<open>h\<close> and the argument \<open>obj\<close> to the store
  \<open>h'\<close> and the result \<open>r\<close>: the cells of \<open>h\<close> are the first cells of \<open>h'\<close>, unchanged;
  the cells added hold addresses of added cells only, and so does the result; an
  argument that is no address is returned as it is, in the same store.
\<close>

definition copied :: "heap \<Rightarrow> hval \<Rightarrow> heap \<Rightarrow> hval \<Rightarrow> bool" where
  "copied h obj h' r \<longleftrightarrow>
     length h \<le> length h' \<and> take (length h) h' = h
     \<and> (\<forall>b. length h \<le> b \<and> b < length h' \<longrightarrow> refs_obj (h' ! b) \<subseteq> {length h..<length h'})
     \<and> refs_val r \<subseteq> {length h..<length h'}
     \<and> (case obj of HRef a \<Rightarrow> (\<exists>b. r = HRef b) | _ \<Rightarrow> r = obj \<and> h' = h)"

text \<open>
  The invariant of both loops, for the new cell at \<open>n\<close>, the store \<open>h1\<close> at the start of
  the loop and the store \<open>hi\<close> now: the cells below \<open>n\<close> are unchanged, and the cells from
  \<open>n\<close> on hold addresses above \<open>n\<close> only.
\<close>

definition loop_inv :: "nat \<Rightarrow> heap \<Rightarrow> heap \<Rightarrow> bool" where
  "loop_inv n h1 hi \<longleftrightarrow>
     n < length h1 \<and> length h1 \<le> length hi \<and> take n hi = take n h1
     \<and> (\<forall>b. n \<le> b \<and> b < length hi \<longrightarrow> refs_obj (hi ! b) \<subseteq> {Suc n..<length hi})"

text \<open>
  The log record of above in a store, its root at address \<open>0\<close>, and an object whose
  property \<open>self\<close> is the object itself.
\<close>

definition log_heap :: heap where
  "log_heap =
    [HObject [(''branch_key'', HStr ''k''), (''nested'', HRef 1), (''items'', HRef 2)],
     HObject [(''auth_token'', HStr ''t''), (''ok'', HStr ''v'')],
     HArray [HRef 3],
     HObject [(''api_key'', HStr ''a''), (''n'', HNum 1)]]"

definition cyclic_heap :: heap where
  "cyclic_heap = [HObject [(''self'', HRef 0)]]"

section \<open>The credential resolver\<close>

lemma nullish_simps:
  "nullish None b = b" "nullish (Some v) b = Some v"
  by (simp_all add: nullish_def)

text \<open>
  C2: the resolved access token is the first present value among the caller's \<open>api_key\<close>,
  the caller's \<open>auth_token\<close>, the configuration's \<open>api_key\<close> and the configuration's
  \<open>auth_token\<close>, absent when none is present, and it is stored in both the \<open>api_key\<close> and
  the \<open>auth_token\<close> slot of the result. For the parameters \<open>{auth_token: "T"}\<close> and the
  configuration \<open>{}\<close> both slots hold \<open>"T"\<close>.
\<close>

theorem getResolvedAuth_access_token_synonym:
  fixes P :: "'a AuthParams_scheme" and C :: BranchMcpConfig
  shows "api_key (getResolvedAuth P C)
           = first_present [api_key P, auth_token P, api_key C, auth_token C]
       \<and> auth_token (getResolvedAuth P C)
           = first_present [api_key P, auth_token P, api_key C, auth_token C]
       \<and> api_key (getResolvedAuth
            \<lparr> app_id = None, organization_id = None, api_key = None, branch_key = None,
              branch_secret = None, auth_token = Some ''T'' \<rparr>
            \<lparr> app_id = None, organization_id = None, api_key = None, branch_key = None,
              branch_secret = None, auth_token = None, branch_url = None \<rparr>) = Some ''T''
       \<and> auth_token (getResolvedAuth
            \<lparr> app_id = None, organization_id = None, api_key = None, branch_key = None,
              branch_secret = None, auth_token = Some ''T'' \<rparr>
            \<lparr> app_id = None, organization_id = None, api_key = None, branch_key = None,
              branch_secret = None, auth_token = None, branch_url = None \<rparr>) = Some ''T''"
  by (cases "api_key P"; cases "auth_token P"; cases "api_key C"; cases "auth_token C")
     (simp_all add: getResolvedAuth_def Let_def nullish_simps)

text \<open>
  C8: the \<open>api_key\<close> slot and the \<open>auth_token\<close> slot of the result hold the same value,
  both present and equal or both absent.
\<close>

theorem getResolvedAuth_slots_equal:
  fixes P :: "'a AuthParams_scheme" and C :: BranchMcpConfig
  shows "api_key (getResolvedAuth P C) = auth_token (getResolvedAuth P C)"
  by (simp add: getResolvedAuth_def Let_def)

text \<open>
  C1, as amended: for each of \<open>branch_key\<close>, \<open>branch_secret\<close>, \<open>app_id\<close> and
  \<open>organization_id\<close> the resolved value is the caller's value when the caller's field is
  present, otherwise the configuration's value when that is present, otherwise it is
  absent. The two token slots \<open>api_key\<close> and \<open>auth_token\<close> do not follow the per-field
  rule: a caller's \<open>api_key\<close> wins in both, and the caller's other token name is consulted
  before the configuration.
\<close>

theorem getResolvedAuth_field_precedence:
  fixes P :: "'a AuthParams_scheme" and C :: BranchMcpConfig
  shows "branch_key (getResolvedAuth P C)
           = (case branch_key P of Some v \<Rightarrow> Some v | None \<Rightarrow> branch_key C)
       \<and> branch_secret (getResolvedAuth P C)
           = (case branch_secret P of Some v \<Rightarrow> Some v | None \<Rightarrow> branch_secret C)
       \<and> app_id (getResolvedAuth P C)
           = (case app_id P of Some v \<Rightarrow> Some v | None \<Rightarrow> app_id C)
       \<and> organization_id (getResolvedAuth P C)
           = (case organization_id P of Some v \<Rightarrow> Some v | None \<Rightarrow> organization_id C)
       \<and> api_key (getResolvedAuth P C)
           = (case api_key P of Some v \<Rightarrow> Some v
              | None \<Rightarrow> (case auth_token P of Some v \<Rightarrow> Some v
                 | None \<Rightarrow> (case api_key C of Some v \<Rightarrow> Some v | None \<Rightarrow> auth_token C)))
       \<and> auth_token (getResolvedAuth P C)
           = (case api_key P of Some v \<Rightarrow> Some v
              | None \<Rightarrow> (case auth_token P of Some v \<Rightarrow> Some v
                 | None \<Rightarrow> (case api_key C of Some v \<Rightarrow> Some v | None \<Rightarrow> auth_token C)))"
  by (simp add: getResolvedAuth_def Let_def nullish_def split: option.splits)

text \<open>
  The per-field rule fails for the token slots. With the parameters \<open>{auth_token: "T"}\<close>
  and the configuration \<open>{api_key: "K"}\<close> the caller has no \<open>api_key\<close> and the
  configuration has one, yet the resolved \<open>api_key\<close> is \<open>"T"\<close>; with the parameters
  \<open>{api_key: "A", auth_token: "T"}\<close> the resolved \<open>auth_token\<close> is \<open>"A"\<close>, not the
  caller's \<open>"T"\<close>.
\<close>

theorem getResolvedAuth_field_precedence_counterexample:
  "api_key (getResolvedAuth
      \<lparr> app_id = None, organization_id = None, api_key = None, branch_key = None,
        branch_secret = None, auth_token = Some ''T'' \<rparr>
      \<lparr> app_id = None, organization_id = None, api_key = Some ''K'', branch_key = None,
        branch_secret = None, auth_token = None, branch_url = None \<rparr>)
     \<noteq> (case api_key \<lparr> app_id = None, organization_id = None, api_key = None,
                  branch_key = None, branch_secret = None, auth_token = Some ''T'' \<rparr> of
          Some v \<Rightarrow> Some v
        | None \<Rightarrow> api_key \<lparr> app_id = None, organization_id = None, api_key = Some ''K'',
                  branch_key = None, branch_secret = None, auth_token = None,
                  branch_url = None \<rparr>)
   \<and> auth_token (getResolvedAuth
      \<lparr> app_id = None, organization_id = None, api_key = Some ''A'', branch_key = None,
        branch_secret = None, auth_token = Some ''T'' \<rparr>
      \<lparr> app_id = None, organization_id = None, api_key = None, branch_key = None,
        branch_secret = None, auth_token = None, branch_url = None \<rparr>)
     \<noteq> (case auth_token \<lparr> app_id = None, organization_id = None, api_key = Some ''A'',
                  branch_key = None, branch_secret = None, auth_token = Some ''T'' \<rparr> of
          Some v \<Rightarrow> Some v
        | None \<Rightarrow> auth_token \<lparr> app_id = None, organization_id = None, api_key = None,
                  branch_key = None, branch_secret = None, auth_token = None,
                  branch_url = None \<rparr>)"
  by (simp add: getResolvedAuth_def Let_def nullish_def)

section \<open>The scope builder\<close>

lemma getApiQueryParams_unfold:
  fixes P :: "'a IdParams_scheme" and C :: BranchMcpConfig
  shows "getApiQueryParams P C =
    (if truthy_str (app_id P) then [''app_id'' \<mapsto> the (app_id P)]
     else if truthy_str (app_id C) then [''app_id'' \<mapsto> the (app_id C)]
     else if truthy_str (organization_id P) then [''organization_id'' \<mapsto> the (organization_id P)]
     else if truthy_str (organization_id C) then [''organization_id'' \<mapsto> the (organization_id C)]
     else Map.empty)"
  by (auto simp add: getApiQueryParams_def Let_def truthy_str_def split: option.splits)

text \<open>
  C3, as amended: an identifier counts as supplied when it is a non-empty string. When
  the caller's or else the configuration's \<open>app_id\<close> is supplied in that sense the result
  is exactly \<open>{app_id: v}\<close> for the first such value, with no \<open>organization_id\<close> in it
  whatever organization identifiers were given; otherwise, when the caller's or else the
  configuration's \<open>organization_id\<close> is supplied, the result is exactly
  \<open>{organization_id: w}\<close>; otherwise it is the empty object.
\<close>

theorem getApiQueryParams_scope:
  fixes P :: "'a IdParams_scheme" and C :: BranchMcpConfig
  shows "getApiQueryParams P C =
      (case first_truthy (app_id P) (app_id C) of
         Some v \<Rightarrow> [''app_id'' \<mapsto> v]
       | None \<Rightarrow>
          (case first_truthy (organization_id P) (organization_id C) of
             Some w \<Rightarrow> [''organization_id'' \<mapsto> w]
           | None \<Rightarrow> Map.empty))
    \<and> (first_truthy (app_id P) (app_id C) \<noteq> None
         \<longrightarrow> ''organization_id'' \<notin> dom (getApiQueryParams P C))"
  by (auto simp add: getApiQueryParams_unfold first_truthy_def truthy_str_def
        split: option.splits)

text \<open>
  A scenario of the specification: the parameters \<open>{app_id: "A", organization_id: "B"}\<close>
  with the configuration \<open>{app_id: "C"}\<close> give \<open>{app_id: "A"}\<close>, without the organization
  identifier.
\<close>

theorem getApiQueryParams_scope_witness:
  "getApiQueryParams \<lparr> app_id = Some ''A'', organization_id = Some ''B'' \<rparr>
      \<lparr> app_id = Some ''C'', organization_id = None, api_key = None, branch_key = None,
        branch_secret = None, auth_token = None, branch_url = None \<rparr> = [''app_id'' \<mapsto> ''A'']
   \<and> ''organization_id'' \<notin> dom (getApiQueryParams
      \<lparr> app_id = Some ''A'', organization_id = Some ''B'' \<rparr>
      \<lparr> app_id = Some ''C'', organization_id = None, api_key = None, branch_key = None,
        branch_secret = None, auth_token = None, branch_url = None \<rparr>)"
  using getApiQueryParams_scope
    [of "\<lparr> app_id = Some ''A'', organization_id = Some ''B'' \<rparr>"
        "\<lparr> app_id = Some ''C'', organization_id = None, api_key = None, branch_key = None,
           branch_secret = None, auth_token = None, branch_url = None \<rparr>"]
  by (simp add: first_truthy_def truthy_str_def)

text \<open>
  An identifier that is present but empty is not used. The server builds its
  configuration with \<open>process.env.BRANCH_APP_ID ?? ''\<close>, so a configuration whose \<open>app_id\<close>
  is the empty string is the ordinary case of an unset variable: with the parameters
  \<open>{}\<close> and the configuration \<open>{app_id: "", organization_id: "Z"}\<close> an \<open>app_id\<close> is
  present, and the result is \<open>{organization_id: "Z"}\<close>, not \<open>{app_id: ""}\<close>.
\<close>

theorem getApiQueryParams_scope_counterexample:
  "app_id \<lparr> app_id = Some '''', organization_id = Some ''Z'', api_key = None,
       branch_key = None, branch_secret = None, auth_token = None, branch_url = None \<rparr> \<noteq> None
   \<and> getApiQueryParams \<lparr> app_id = None, organization_id = None \<rparr>
      \<lparr> app_id = Some '''', organization_id = Some ''Z'', api_key = None, branch_key = None,
        branch_secret = None, auth_token = None, branch_url = None \<rparr>
       = [''organization_id'' \<mapsto> ''Z'']
   \<and> getApiQueryParams \<lparr> app_id = None, organization_id = None \<rparr>
      \<lparr> app_id = Some '''', organization_id = Some ''Z'', api_key = None, branch_key = None,
        branch_secret = None, auth_token = None, branch_url = None \<rparr>
       \<noteq> [''app_id'' \<mapsto> '''']"
proof -
  have neq: "[''organization_id'' \<mapsto> ''Z''] \<noteq> [''app_id'' \<mapsto> ([] :: string)]"
  proof
    assume "[''organization_id'' \<mapsto> ''Z''] = [''app_id'' \<mapsto> ([] :: string)]"
    then have "[''organization_id'' \<mapsto> ''Z''] ''app_id'' = [''app_id'' \<mapsto> ([] :: string)] ''app_id''"
      by simp
    then show False by simp
  qed
  show ?thesis
    using neq by (simp add: getApiQueryParams_unfold truthy_str_def)
qed

text \<open>
  C10, as amended: the two components disagree on the empty string. When the caller's
  \<open>app_id\<close> is the empty string and the configuration's \<open>app_id\<close> is a non-empty string
  \<open>c\<close>, the scope builder returns \<open>{app_id: c}\<close> while the resolved \<open>app_id\<close> is the empty
  string. When the caller's \<open>organization_id\<close> is the empty string and the
  configuration's \<open>organization_id\<close> is a non-empty string \<open>z\<close>, the resolved
  \<open>organization_id\<close> is the empty string, while the scope builder returns what it
  returns when the caller gives no \<open>organization_id\<close> at all; that is
  \<open>{organization_id: z}\<close> when neither the caller's nor the configuration's \<open>app_id\<close> is
  a non-empty string, and an \<open>app_id\<close> otherwise.
\<close>

theorem empty_string_asymmetry:
  fixes P :: "'a AuthParams_scheme" and C :: BranchMcpConfig
  shows "(app_id P = Some [] \<and> app_id C = Some c \<and> c \<noteq> []
            \<longrightarrow> getApiQueryParams P C = [''app_id'' \<mapsto> c]
              \<and> app_id (getResolvedAuth P C) = Some [])
       \<and> (organization_id P = Some [] \<and> organization_id C = Some z \<and> z \<noteq> []
            \<longrightarrow> organization_id (getResolvedAuth P C) = Some []
              \<and> getApiQueryParams P C = getApiQueryParams (P\<lparr>organization_id := None\<rparr>) C
              \<and> (\<not> truthy_str (app_id P) \<and> \<not> truthy_str (app_id C)
                   \<longrightarrow> getApiQueryParams P C = [''organization_id'' \<mapsto> z]))"
  by (auto simp add: getApiQueryParams_unfold getResolvedAuth_def Let_def nullish_def
        truthy_str_def)

theorem empty_string_asymmetry_witness:
  "getApiQueryParams
      \<lparr> app_id = Some [], organization_id = Some [], api_key = None, branch_key = None,
        branch_secret = None, auth_token = None \<rparr>
      \<lparr> app_id = Some ''C'', organization_id = Some ''Z'', api_key = None, branch_key = None,
        branch_secret = None, auth_token = None, branch_url = None \<rparr> = [''app_id'' \<mapsto> ''C'']
   \<and> app_id (getResolvedAuth
      \<lparr> app_id = Some [], organization_id = Some [], api_key = None, branch_key = None,
        branch_secret = None, auth_token = None \<rparr>
      \<lparr> app_id = Some ''C'', organization_id = Some ''Z'', api_key = None, branch_key = None,
        branch_secret = None, auth_token = None, branch_url = None \<rparr>) = Some []
   \<and> organization_id (getResolvedAuth
      \<lparr> app_id = None, organization_id = Some [], api_key = None, branch_key = None,
        branch_secret = None, auth_token = None \<rparr>
      \<lparr> app_id = Some [], organization_id = Some ''Z'', api_key = None, branch_key = None,
        branch_secret = None, auth_token = None, branch_url = None \<rparr>) = Some []
   \<and> getApiQueryParams
      \<lparr> app_id = None, organization_id = Some [], api_key = None, branch_key = None,
        branch_secret = None, auth_token = None \<rparr>
      \<lparr> app_id = Some [], organization_id = Some ''Z'', api_key = None, branch_key = None,
        branch_secret = None, auth_token = None, branch_url = None \<rparr>
       = [''organization_id'' \<mapsto> ''Z'']"
proof -
  let ?P1 = "\<lparr> app_id = Some [], organization_id = Some [], api_key = None,
      branch_key = None, branch_secret = None, auth_token = None \<rparr>"
  let ?C1 = "\<lparr> app_id = Some ''C'', organization_id = Some ''Z'', api_key = None,
      branch_key = None, branch_secret = None, auth_token = None, branch_url = None \<rparr>"
  let ?P2 = "\<lparr> app_id = None, organization_id = Some [], api_key = None,
      branch_key = None, branch_secret = None, auth_token = None \<rparr>"
  let ?C2 = "\<lparr> app_id = Some [], organization_id = Some ''Z'', api_key = None,
      branch_key = None, branch_secret = None, auth_token = None, branch_url = None \<rparr>"
  have a: "getApiQueryParams ?P1 ?C1 = [''app_id'' \<mapsto> ''C'']
      \<and> app_id (getResolvedAuth ?P1 ?C1) = Some []"
    by (rule empty_string_asymmetry [of ?P1 ?C1 "''C''" "''Z''", THEN conjunct1, rule_format])
      simp
  have b: "organization_id (getResolvedAuth ?P2 ?C2) = Some []
      \<and> getApiQueryParams ?P2 ?C2 = getApiQueryParams (?P2\<lparr>organization_id := None\<rparr>) ?C2
      \<and> (\<not> truthy_str (app_id ?P2) \<and> \<not> truthy_str (app_id ?C2)
           \<longrightarrow> getApiQueryParams ?P2 ?C2 = [''organization_id'' \<mapsto> ''Z''])"
    by (rule empty_string_asymmetry [of ?P2 ?C2 "''C''" "''Z''", THEN conjunct2, rule_format])
      simp
  have c: "\<not> truthy_str (app_id ?P2) \<and> \<not> truthy_str (app_id ?C2)"
    by (simp add: truthy_str_def)
  from b c have d: "getApiQueryParams ?P2 ?C2 = [''organization_id'' \<mapsto> ''Z'']"
    by blast
  from a b d show ?thesis by blast
qed

text \<open>
  The statement made of \<open>app_id\<close> does not carry over to \<open>organization_id\<close> word for
  word: with the parameters \<open>{organization_id: ""}\<close> and the configuration
  \<open>{app_id: "A", organization_id: "Z"}\<close> the scope builder returns \<open>{app_id: "A"}\<close>, not
  \<open>{organization_id: "Z"}\<close>.
\<close>

theorem empty_string_asymmetry_counterexample:
  "organization_id \<lparr> app_id = None, organization_id = Some [], api_key = None,
       branch_key = None, branch_secret = None, auth_token = None \<rparr> = Some []
   \<and> organization_id \<lparr> app_id = Some ''A'', organization_id = Some ''Z'', api_key = None,
       branch_key = None, branch_secret = None, auth_token = None, branch_url = None \<rparr>
       = Some ''Z''
   \<and> getApiQueryParams
      \<lparr> app_id = None, organization_id = Some [], api_key = None, branch_key = None,
        branch_secret = None, auth_token = None \<rparr>
      \<lparr> app_id = Some ''A'', organization_id = Some ''Z'', api_key = None, branch_key = None,
        branch_secret = None, auth_token = None, branch_url = None \<rparr> = [''app_id'' \<mapsto> ''A'']
   \<and> getApiQueryParams
      \<lparr> app_id = None, organization_id = Some [], api_key = None, branch_key = None,
        branch_secret = None, auth_token = None \<rparr>
      \<lparr> app_id = Some ''A'', organization_id = Some ''Z'', api_key = None, branch_key = None,
        branch_secret = None, auth_token = None, branch_url = None \<rparr>
       \<noteq> [''organization_id'' \<mapsto> ''Z'']"
proof -
  have neq: "[''app_id'' \<mapsto> ''A''] \<noteq> [''organization_id'' \<mapsto> ''Z'']"
  proof
    assume "[''app_id'' \<mapsto> ''A''] = [''organization_id'' \<mapsto> ''Z'']"
    then have "[''app_id'' \<mapsto> ''A''] ''app_id'' = [''organization_id'' \<mapsto> ''Z''] ''app_id''"
      by simp
    then show False by simp
  qed
  show ?thesis
    using neq by (simp add: getApiQueryParams_unfold truthy_str_def)
qed

section \<open>Message extraction\<close>



text \<open>
  C6: \<open>getErrorMessage\<close> returns the message of an instance of \<open>Error\<close> and of an object
  whose property \<open>message\<close> is a string, a string itself, and the text
  \<open>Unknown error occurred\<close> for every other value: an object with no string \<open>message\<close>,
  an array, a number, a boolean, \<open>null\<close> and \<open>undefined\<close>. It is a total function with no
  failing branch.
\<close>

theorem getErrorMessage_policy:
  "getErrorMessage (OtherError m) = m
   \<and> getErrorMessage (AxiosError m r) = m
   \<and> (map_of props ''message'' = Some (JStr m)
        \<longrightarrow> getErrorMessage (NonError (JObj props)) = m)
   \<and> getErrorMessage (NonError (JStr s)) = s
   \<and> ((\<forall>t. map_of props ''message'' \<noteq> Some (JStr t))
        \<longrightarrow> getErrorMessage (NonError (JObj props)) = ''Unknown error occurred'')
   \<and> getErrorMessage (NonError (JArr xs)) = ''Unknown error occurred''
   \<and> getErrorMessage (NonError (JNum n)) = ''Unknown error occurred''
   \<and> getErrorMessage (NonError (JBool b)) = ''Unknown error occurred''
   \<and> getErrorMessage (NonError JNull) = ''Unknown error occurred''
   \<and> getErrorMessage (NonError JUndefined) = ''Unknown error occurred''"
  by (auto split: option.splits jsval.splits)

text \<open>
  The examples of the specification: \<open>new Error("x")\<close>, \<open>"x"\<close> and \<open>{message: "x"}\<close> give
  \<open>"x"\<close>; \<open>123\<close> and \<open>{}\<close> give the generic text.
\<close>

theorem getErrorMessage_policy_witness:
  "getErrorMessage (OtherError ''x'') = ''x''
   \<and> getErrorMessage (NonError (JStr ''x'')) = ''x''
   \<and> getErrorMessage (NonError (JObj [(''message'', JStr ''x'')])) = ''x''
   \<and> getErrorMessage (NonError (JNum 123)) = ''Unknown error occurred''
   \<and> getErrorMessage (NonError (JObj [])) = ''Unknown error occurred''"
proof -
  note p = getErrorMessage_policy [of "''x''" None "[(''message'', JStr ''x'')]" "''x''" "[]" 123 True]
  note q = getErrorMessage_policy [of "''x''" None "[]" "''x''" "[]" 123 True]
  have a: "getErrorMessage (NonError (JObj [(''message'', JStr ''x'')])) = ''x''"
    using p by simp
  have b: "getErrorMessage (NonError (JObj [])) = ''Unknown error occurred''"
    using q by simp
  from p a b show ?thesis by blast
qed

section \<open>Error normalization\<close>




text \<open>
  The \<open>catch\<close> clause of the QR-code tool on what its request delivers: the body of the
  response is a \<open>Buffer\<close>, the nested value is \<open>undefined\<close>, and the message thrown is the
  axios error's own, whatever the server wrote in the body.
\<close>

lemma branch_create_qr_code_catch_buffer:
  "resp_data r = Buffer bytes
   \<Longrightarrow> message (branch_create_qr_code_catch (AxiosError m (Some r))) = m"
  by (simp add: branch_create_qr_code_catch_def Let_def nested_error_message_def
      new_BranchApiError_def)

text \<open>
  C5, as amended: \<open>handleApiError\<close> sets the status exactly when the value caught is an
  axios error that carries a response, to the status code of that response, and leaves
  it absent for every other value. The \<open>catch\<close> clauses of the quick-link tools and of
  the QR-code tool always set the status: to the status code of the response when there
  is one, and to \<open>0\<close> for an axios error without a response and for every value that is
  not an axios error.
\<close>

theorem status_discriminator:
  "(status (handleApiError e) \<noteq> None) = (\<exists>m r. e = AxiosError m (Some r))
   \<and> status (handleApiError (AxiosError m (Some r))) = Some (resp_status r)
   \<and> status (branch_create_quick_link_catch e)
        = Some (case response_of e of Some r \<Rightarrow> resp_status r | None \<Rightarrow> 0)
   \<and> status (branch_create_qr_code_catch e)
        = Some (case response_of e of Some r \<Rightarrow> resp_status r | None \<Rightarrow> 0)"
proof -
  have a: "(status (handleApiError e) \<noteq> None) = (\<exists>m r. e = AxiosError m (Some r))"
  proof (cases e)
    case (AxiosError m r)
    then show ?thesis
      by (cases r) (simp_all add: handleApiError_def new_BranchApiError_def)
  qed (simp_all add: handleApiError_def new_BranchApiError_def)
  have b: "status (handleApiError (AxiosError m (Some r))) = Some (resp_status r)"
    by (simp add: handleApiError_def new_BranchApiError_def)
  have c: "status (branch_create_quick_link_catch e)
      = Some (case response_of e of Some r \<Rightarrow> resp_status r | None \<Rightarrow> 0)"
    by (cases e) (simp_all add: branch_create_quick_link_catch_def Let_def new_BranchApiError_def)
  have d: "status (branch_create_qr_code_catch e)
      = Some (case response_of e of Some r \<Rightarrow> resp_status r | None \<Rightarrow> 0)"
    by (cases e) (simp_all add: branch_create_qr_code_catch_def Let_def new_BranchApiError_def)
  from a b c d show ?thesis by blast
qed

text \<open>
  A network failure without a response, and a thrown value that is not an axios error:
  the \<open>catch\<close> clauses throw an error whose status is present, the number \<open>0\<close>.
\<close>

theorem status_discriminator_counterexample:
  "response_of network_error = None
   \<and> status (branch_create_quick_link_catch network_error) = Some 0
   \<and> status (branch_create_qr_code_catch network_error) = Some 0
   \<and> status (branch_create_quick_link_catch (OtherError ''boom'')) = Some 0
   \<and> status (branch_create_quick_link_catch network_error) \<noteq> None"
  by (simp add: network_error_def branch_create_quick_link_catch_def
      branch_create_qr_code_catch_def Let_def new_BranchApiError_def nested_error_message_def)

section \<open>Redaction of plain data\<close>

text \<open>Assigning a key that is not there appends it.\<close>

lemma update_fresh: "k \<notin> fst ` set al \<Longrightarrow> AList.update k v al = al @ [(k, v)]"
  by (induction al) auto

lemma foldl_assign_distinct:
  "distinct (map fst props) \<Longrightarrow> ''__proto__'' \<notin> set (map fst props) \<Longrightarrow>
   fst ` set acc \<inter> fst ` set props = {} \<Longrightarrow>
   foldl (\<lambda>newObj (key, v). if c key then js_assign newObj key r
                              else js_assign newObj key (f v)) acc props
   = acc @ map (\<lambda>(key, v). (key, if c key then r else f v)) props"
proof (induction props arbitrary: acc)
  case Nil
  then show ?case by simp
next
  case (Cons a props)
  obtain k v where a: "a = (k, v)" by (cases a)
  from Cons.prems a have k: "k \<notin> fst ` set acc" and kp: "k \<noteq> ''__proto__''" by auto
  let ?acc = "acc @ [(k, if c k then r else f v)]"
  have d: "distinct (map fst props)" using Cons.prems by simp
  have p: "''__proto__'' \<notin> set (map fst props)" using Cons.prems by simp
  have i: "fst ` set ?acc \<inter> fst ` set props = {}"
    using Cons.prems a by (auto simp: image_iff)
  show ?case
    using Cons.IH [OF d p i] k kp a
    by (cases "c k") (simp_all add: js_assign_def update_fresh)
qed

text \<open>
  On an object with distinct keys, none of them \<open>__proto__\<close>, the loop keeps every key in
  its place.
\<close>

lemma sanitize_object:
  "distinct (map fst props) \<Longrightarrow> ''__proto__'' \<notin> set (map fst props) \<Longrightarrow>
   sanitizeLogObject (JObj props)
   = JObj (map (\<lambda>(key, v). (key, if key \<in> set SENSITIVE_KEYS then JStr REDACTED_PLACEHOLDER
                                     else sanitizeLogObject v)) props)"
  using foldl_assign_distinct [of props "[]" "\<lambda>k. k \<in> set SENSITIVE_KEYS"
      "JStr REDACTED_PLACEHOLDER" sanitizeLogObject]
  by simp

text \<open>Redaction along a path, and on a value without sensitive keys.\<close>

lemma map_of_redact:
  "map_of (map (\<lambda>(key, v). (key, g key v)) props) k
   = (case map_of props k of None \<Rightarrow> None | Some v \<Rightarrow> Some (g k v))"
  by (induction props) auto

lemma sanitize_path:
  "wf_val v \<Longrightarrow> \<not> list_ex sensitive_step p \<Longrightarrow>
   get_path (sanitizeLogObject v) p = map_option sanitizeLogObject (get_path v p)"
proof (induction v p rule: get_path.induct)
  case (2 props k p)
  then have d: "distinct (map fst props)" and np: "''__proto__'' \<notin> set (map fst props)"
    and k: "k \<notin> set SENSITIVE_KEYS" by auto
  show ?case
  proof (cases "map_of props k")
    case None
    then show ?thesis
      by (simp add: sanitize_object [OF d np] map_of_redact del: sanitizeLogObject.simps(7))
  next
    case (Some w)
    then have "(k, w) \<in> set props" by (auto dest: map_of_SomeD)
    with 2 have "wf_val w" by (auto simp: list_all_iff)
    with 2 Some k show ?thesis
      by (simp add: sanitize_object [OF d np] map_of_redact del: sanitizeLogObject.simps(7))
  qed
next
  case (3 xs i p)
  then show ?case by (auto simp: list_all_iff)
qed (auto simp: sanitize_object simp del: sanitizeLogObject.simps(7))

lemma sanitize_sensitive_key:
  "wf_val v \<Longrightarrow> \<not> list_ex sensitive_step p \<Longrightarrow> k \<in> set SENSITIVE_KEYS \<Longrightarrow>
   get_path v (p @ [Key k]) \<noteq> None \<Longrightarrow>
   get_path (sanitizeLogObject v) (p @ [Key k]) = Some (JStr REDACTED_PLACEHOLDER)"
proof (induction v p rule: get_path.induct)
  case (1 v)
  then obtain props where v: "v = JObj props" by (cases v) auto
  with 1 have d: "distinct (map fst props)" and np: "''__proto__'' \<notin> set (map fst props)"
    by simp_all
  from 1 v show ?case
    by (auto simp add: sanitize_object [OF d np] map_of_redact simp del: sanitizeLogObject.simps(7)
        split: option.splits)
next
  case (2 props k' p)
  then have d: "distinct (map fst props)" and np: "''__proto__'' \<notin> set (map fst props)"
    and k': "k' \<notin> set SENSITIVE_KEYS" by auto
  from 2 obtain w where w: "map_of props k' = Some w" by (auto split: option.splits)
  then have "(k', w) \<in> set props" by (auto dest: map_of_SomeD)
  with 2 have "wf_val w" by (auto simp: list_all_iff)
  with 2 w k' show ?case
    by (simp add: sanitize_object [OF d np] map_of_redact del: sanitizeLogObject.simps(7))
next
  case (3 xs i p)
  then show ?case by (auto simp: list_all_iff split: if_splits)
qed auto

lemma sanitize_identity:
  "wf_val v \<Longrightarrow> \<not> has_sensitive_key v \<Longrightarrow> sanitizeLogObject v = v"
proof (induction v rule: sanitizeLogObject.induct)
  case (6 xs)
  then show ?case by (auto simp: list_all_iff list_ex_iff intro: map_idI)
next
  case (7 props)
  then have d: "distinct (map fst props)" and np: "''__proto__'' \<notin> set (map fst props)"
    by simp_all
  have "map (\<lambda>(key, v). (key, if key \<in> set SENSITIVE_KEYS then JStr REDACTED_PLACEHOLDER
                                     else sanitizeLogObject v)) props = props"
  proof (rule map_idI)
    fix x assume x: "x \<in> set props"
    obtain k w where kw: "x = (k, w)" by (cases x)
    from 7 x kw have "k \<notin> set SENSITIVE_KEYS" "wf_val w" "\<not> has_sensitive_key w"
      by (auto simp: list_all_iff list_ex_iff)
    with 7(1) [OF x kw [symmetric]] kw
    show "(case x of (key, v) \<Rightarrow> (key, if key \<in> set SENSITIVE_KEYS
        then JStr REDACTED_PLACEHOLDER else sanitizeLogObject v)) = x"
      by simp
  qed
  then show ?case by (simp add: sanitize_object [OF d np] del: sanitizeLogObject.simps(7))
qed auto

lemma wf_val_get_path: "wf_val v \<Longrightarrow> get_path v p = Some x \<Longrightarrow> wf_val x"
proof (induction v p arbitrary: x rule: get_path.induct)
  case (2 props k p)
  then obtain w where w: "map_of props k = Some w" "get_path w p = Some x"
    by (auto split: option.splits)
  then have "(k, w) \<in> set props" by (auto dest: map_of_SomeD)
  with 2 have "wf_val w" by (auto simp: list_all_iff)
  with 2 w show ?case by simp
next
  case (3 xs i p)
  then show ?case by (auto simp: list_all_iff split: if_splits)
qed auto

text \<open>
  Redaction of a well formed value. The sensitive keys are \<open>branch_secret\<close>,
  \<open>branch_key\<close>, \<open>api_key\<close>, \<open>auth_token\<close>, \<open>app_id\<close> and \<open>organization_id\<close>, and the
  placeholder is \<open>[REDACTED]\<close>. For a finite tree of plain data \<open>v\<close> in which no property
  is named \<open>__proto__\<close>, at any depth and through arrays: the value under a sensitive key
  that is reached through non-sensitive keys is the placeholder in the result; at every
  path of non-sensitive keys the result has a value exactly when \<open>v\<close> has one, and it is
  the redaction of that value; a value of \<open>v\<close> at such a path that holds no sensitive
  key, in particular every value that is neither object nor array, is in the result
  unchanged.
\<close>

lemma sanitizeLogObject_redacts:
  assumes "wf_val v"
  shows "set SENSITIVE_KEYS = {''branch_secret'', ''branch_key'', ''api_key'', ''auth_token'',
            ''app_id'', ''organization_id''}
       \<and> REDACTED_PLACEHOLDER = ''[REDACTED]''
       \<and> (\<forall>p k. \<not> list_ex sensitive_step p \<and> k \<in> set SENSITIVE_KEYS
               \<and> get_path v (p @ [Key k]) \<noteq> None
             \<longrightarrow> get_path (sanitizeLogObject v) (p @ [Key k])
                   = Some (JStr REDACTED_PLACEHOLDER))
       \<and> (\<forall>p. \<not> list_ex sensitive_step p
             \<longrightarrow> get_path (sanitizeLogObject v) p
                   = map_option sanitizeLogObject (get_path v p))
       \<and> (\<forall>p x. \<not> list_ex sensitive_step p \<and> get_path v p = Some x \<and> \<not> has_sensitive_key x
             \<longrightarrow> get_path (sanitizeLogObject v) p = Some x)"
proof -
  have a: "set SENSITIVE_KEYS = {''branch_secret'', ''branch_key'', ''api_key'', ''auth_token'',
      ''app_id'', ''organization_id''}"
    by (simp add: SENSITIVE_KEYS_def)
  have b: "REDACTED_PLACEHOLDER = ''[REDACTED]''"
    by (simp add: REDACTED_PLACEHOLDER_def)
  have c: "\<forall>p k. \<not> list_ex sensitive_step p \<and> k \<in> set SENSITIVE_KEYS
        \<and> get_path v (p @ [Key k]) \<noteq> None
      \<longrightarrow> get_path (sanitizeLogObject v) (p @ [Key k]) = Some (JStr REDACTED_PLACEHOLDER)"
    using assms by (blast intro: sanitize_sensitive_key)
  have d: "\<forall>p. \<not> list_ex sensitive_step p
      \<longrightarrow> get_path (sanitizeLogObject v) p = map_option sanitizeLogObject (get_path v p)"
    using assms by (blast intro: sanitize_path)
  have e: "\<forall>p x. \<not> list_ex sensitive_step p \<and> get_path v p = Some x \<and> \<not> has_sensitive_key x
      \<longrightarrow> get_path (sanitizeLogObject v) p = Some x"
  proof (intro allI impI)
    fix p x
    assume h: "\<not> list_ex sensitive_step p \<and> get_path v p = Some x \<and> \<not> has_sensitive_key x"
    then have "wf_val x" using assms wf_val_get_path by blast
    with h have "sanitizeLogObject x = x" by (simp add: sanitize_identity)
    with h d show "get_path (sanitizeLogObject v) p = Some x" by simp
  qed
  from a b c d e show ?thesis by blast
qed

text \<open>
  On the log record
  \<open>{branch_key: "k", nested: {auth_token: "t", ok: "v"}, items: [{api_key: "a", n: 1}]}\<close>:
  \<open>branch_key\<close>, \<open>nested.auth_token\<close> and \<open>items[0].api_key\<close> become the placeholder,
  \<open>nested.ok\<close> and \<open>items[0].n\<close> stay.
\<close>

lemma sanitizeLogObject_redacts_log_record:
  "wf_val log_record
   \<and> get_path (sanitizeLogObject log_record) [Key ''branch_key''] = Some (JStr ''[REDACTED]'')
   \<and> get_path (sanitizeLogObject log_record) [Key ''nested'', Key ''auth_token'']
       = Some (JStr ''[REDACTED]'')
   \<and> get_path (sanitizeLogObject log_record) [Key ''items'', Index 0, Key ''api_key'']
       = Some (JStr ''[REDACTED]'')
   \<and> get_path (sanitizeLogObject log_record) [Key ''nested'', Key ''ok''] = Some (JStr ''v'')
   \<and> get_path (sanitizeLogObject log_record) [Key ''items'', Index 0, Key ''n'']
       = Some (JNum 1)"
proof -
  have w: "wf_val log_record"
    by (simp add: log_record_def)
  note t = sanitizeLogObject_redacts [OF w]
  have r: "REDACTED_PLACEHOLDER = ''[REDACTED]''"
    using t by blast
  have k: "''branch_key'' \<in> set SENSITIVE_KEYS" "''auth_token'' \<in> set SENSITIVE_KEYS"
    "''api_key'' \<in> set SENSITIVE_KEYS" "''nested'' \<notin> set SENSITIVE_KEYS"
    "''items'' \<notin> set SENSITIVE_KEYS"  "''ok'' \<notin> set SENSITIVE_KEYS"
    "''n'' \<notin> set SENSITIVE_KEYS"
    by (simp_all add: SENSITIVE_KEYS_def)
  from t have red: "\<And>p k. \<not> list_ex sensitive_step p \<Longrightarrow> k \<in> set SENSITIVE_KEYS
      \<Longrightarrow> get_path log_record (p @ [Key k]) \<noteq> None
      \<Longrightarrow> get_path (sanitizeLogObject log_record) (p @ [Key k]) = Some (JStr ''[REDACTED]'')"
    unfolding r by blast
  from t have keep: "\<And>p x. \<not> list_ex sensitive_step p \<Longrightarrow> get_path log_record p = Some x
      \<Longrightarrow> \<not> has_sensitive_key x \<Longrightarrow> get_path (sanitizeLogObject log_record) p = Some x"
    by blast
  have a: "get_path (sanitizeLogObject log_record) [Key ''branch_key''] = Some (JStr ''[REDACTED]'')"
    using red [of "[]" "''branch_key''"] k by (simp add: log_record_def)
  have b: "get_path (sanitizeLogObject log_record) [Key ''nested'', Key ''auth_token'']
      = Some (JStr ''[REDACTED]'')"
    using red [of "[Key ''nested'']" "''auth_token''"] k by (simp add: log_record_def)
  have c: "get_path (sanitizeLogObject log_record) [Key ''items'', Index 0, Key ''api_key'']
      = Some (JStr ''[REDACTED]'')"
    using red [of "[Key ''items'', Index 0]" "''api_key''"] k by (simp add: log_record_def)
  have d: "get_path (sanitizeLogObject log_record) [Key ''nested'', Key ''ok''] = Some (JStr ''v'')"
    using keep [of "[Key ''nested'', Key ''ok'']" "JStr ''v''"] k by (simp add: log_record_def)
  have e: "get_path (sanitizeLogObject log_record) [Key ''items'', Index 0, Key ''n'']
      = Some (JNum 1)"
    using keep [of "[Key ''items'', Index 0, Key ''n'']" "JNum 1"] k
    by (simp add: log_record_def)
  from w a b c d e show ?thesis by blast
qed

text \<open>
  C7: for every finite acyclic value the result of \<open>sanitizeLogObject\<close> has the
  placeholder under every sensitive key and every other value as it is in the input.
  The code does not keep every other value. The object parsed from
  \<open>{"__proto__": "x", "note": "n"}\<close> is finite and acyclic, its key \<open>__proto__\<close> is not
  sensitive and holds \<open>"x"\<close>; the loop assigns \<open>newObj["__proto__"] = "x"\<close>, which creates
  no property, and the result is \<open>{note: "n"}\<close>: it has no value at \<open>__proto__\<close>.
\<close>

theorem sanitizeLogObject_drops_proto:
  "''__proto__'' \<notin> set SENSITIVE_KEYS
   \<and> get_path proto_record [Key ''__proto__''] = Some (JStr ''x'')
   \<and> sanitizeLogObject proto_record = JObj [(''note'', JStr ''n'')]
   \<and> get_path (sanitizeLogObject proto_record) [Key ''__proto__''] = None"
  by (simp add: proto_record_def SENSITIVE_KEYS_def js_assign_def)

section \<open>Redaction on the store\<close>

subsection \<open>What a call leaves behind\<close>

text \<open>An assignment adds no address to a cell but those of the value assigned.\<close>

lemma snd_set_update: "snd ` set (AList.update k v ps) \<subseteq> insert v (snd ` set ps)"
  by (induction ps) auto

lemma refs_update_property:
  "refs_obj (HObject (AList.update k v ps)) \<subseteq> refs_val v \<union> refs_obj (HObject ps)"
  by (induction ps) auto

lemma refs_update_element:
  "refs_obj (HArray (xs[k := v])) \<subseteq> refs_val v \<union> refs_obj (HArray xs)"
  using set_update_subset_insert [of xs k v] by auto

text \<open>
  The invariant is kept by an assignment to the new cell, by a call that leaves the
  store as \<open>copied\<close> says, and so by every round of the two loops.
\<close>

lemma loop_inv_set_property:
  assumes "loop_inv n h1 hi" and "refs_val v \<subseteq> {Suc n..<length hi}"
  shows "loop_inv n h1 (set_property hi n key v)"
proof (cases "key = ''__proto__''")
  case True
  with assms(1) show ?thesis by (simp add: set_property_def)
next
  case False
  from assms(1) have n: "n < length hi" by (simp add: loop_inv_def)
  show ?thesis
  proof (cases "hi ! n")
    case (HArray xs)
    with n assms(1) show ?thesis by (simp add: set_property_def)
  next
    case (HObject ps)
    from assms(1) n have "refs_obj (hi ! n) \<subseteq> {Suc n..<length hi}"
      by (simp add: loop_inv_def)
    with HObject have "refs_obj (HObject ps) \<subseteq> {Suc n..<length hi}"
      by simp
    with assms(2) refs_update_property [of key v ps]
    have r: "refs_obj (HObject (AList.update key v ps)) \<subseteq> {Suc n..<length hi}"
      by blast
    have s: "set_property hi n key v = hi[n := HObject (AList.update key v ps)]"
      using n HObject False by (simp add: set_property_def)
    show ?thesis
      unfolding s using assms(1) r
      by (auto simp add: loop_inv_def nth_list_update)
  qed
qed

lemma loop_inv_set_element:
  assumes "loop_inv n h1 hi" and "refs_val v \<subseteq> {Suc n..<length hi}"
  shows "loop_inv n h1 (set_element hi n k v)"
proof -
  from assms(1) have n: "n < length hi" by (simp add: loop_inv_def)
  show ?thesis
  proof (cases "hi ! n")
    case (HObject ps)
    with n assms(1) show ?thesis by (simp add: set_element_def)
  next
    case (HArray xs)
    from assms(1) n have "refs_obj (hi ! n) \<subseteq> {Suc n..<length hi}"
      by (simp add: loop_inv_def)
    with HArray have "refs_obj (HArray xs) \<subseteq> {Suc n..<length hi}"
      by simp
    with assms(2) refs_update_element [of xs k v]
    have r: "refs_obj (HArray (xs[k := v])) \<subseteq> {Suc n..<length hi}"
      by blast
    have s: "set_element hi n k v = hi[n := HArray (xs[k := v])]"
      using n HArray by (simp add: set_element_def)
    show ?thesis
      unfolding s using assms(1) r
      by (auto simp add: loop_inv_def nth_list_update)
  qed
qed

lemma loop_inv_copied:
  assumes "loop_inv n h1 hi" and "copied hi v h' r"
  shows "loop_inv n h1 h'" and "refs_val r \<subseteq> {Suc n..<length h'}"
proof -
  from assms(1) have n: "n < length h1" "length h1 \<le> length hi" "take n hi = take n h1"
    and old: "\<forall>b. n \<le> b \<and> b < length hi \<longrightarrow> refs_obj (hi ! b) \<subseteq> {Suc n..<length hi}"
    by (simp_all add: loop_inv_def)
  from assms(2) have c: "length hi \<le> length h'" "take (length hi) h' = hi"
    and new: "\<forall>b. length hi \<le> b \<and> b < length h' \<longrightarrow> refs_obj (h' ! b) \<subseteq> {length hi..<length h'}"
    and r: "refs_val r \<subseteq> {length hi..<length h'}"
    by (simp_all add: copied_def)
  have t: "take n h' = take n h1"
  proof -
    have "take n h' = take n (take (length hi) h')" using n by (simp add: min_def)
    with c n show ?thesis by simp
  qed
  have same: "\<And>b. b < length hi \<Longrightarrow> h' ! b = hi ! b"
  proof -
    fix b assume "b < length hi"
    then have "take (length hi) h' ! b = h' ! b" by simp
    with c show "h' ! b = hi ! b" by simp
  qed
  have refs: "\<forall>b. n \<le> b \<and> b < length h' \<longrightarrow> refs_obj (h' ! b) \<subseteq> {Suc n..<length h'}"
  proof (intro allI impI)
    fix b assume b: "n \<le> b \<and> b < length h'"
    show "refs_obj (h' ! b) \<subseteq> {Suc n..<length h'}"
    proof (cases "b < length hi")
      case True
      with old b same [OF True] c show ?thesis by fastforce
    next
      case False
      with new b n have "refs_obj (h' ! b) \<subseteq> {length hi..<length h'}" by simp
      with n show ?thesis by fastforce
    qed
  qed
  from n c t refs show "loop_inv n h1 h'" by (simp add: loop_inv_def)
  from r n show "refs_val r \<subseteq> {Suc n..<length h'}" by fastforce
qed

lemma forin_step_inv:
  assumes cb: "\<And>h v h' r. recurse h v = Some (h', r) \<Longrightarrow> copied h v h' r"
    and inv: "loop_inv n h1 hi"
    and step: "forin_step recurse obj n key (Some hi) = Some hj"
  shows "loop_inv n h1 hj"
proof (cases "own_property hi obj key")
  case None
  with step inv show ?thesis by (simp add: forin_step_def)
next
  case (Some v)
  show ?thesis
  proof (cases "key \<in> set SENSITIVE_KEYS")
    case True
    with Some step have "hj = set_property hi n key (HStr REDACTED_PLACEHOLDER)"
      by (simp add: forin_step_def)
    with loop_inv_set_property [OF inv, of "HStr REDACTED_PLACEHOLDER" key]
    show ?thesis by simp
  next
    case False
    with Some step obtain h' r where rec: "recurse hi v = Some (h', r)"
      and hj: "hj = set_property h' n key r"
      by (auto simp add: forin_step_def split: option.splits)
    from loop_inv_copied [OF inv cb [OF rec]] hj
    show ?thesis by (simp add: loop_inv_set_property)
  qed
qed

lemma map_step_inv:
  assumes cb: "\<And>h v h' r. callback h v = Some (h', r) \<Longrightarrow> copied h v h' r"
    and inv: "loop_inv n h1 hi"
    and step: "map_step callback obj n k (Some hi) = Some hj"
  shows "loop_inv n h1 hj"
proof (cases "element hi obj k")
  case None
  with step inv show ?thesis by (simp add: map_step_def)
next
  case (Some v)
  with step obtain h' r where rec: "callback hi v = Some (h', r)"
    and hj: "hj = set_element h' n k r"
    by (auto simp add: map_step_def split: option.splits)
  from loop_inv_copied [OF inv cb [OF rec]] hj
  show ?thesis by (simp add: loop_inv_set_element)
qed

lemma fold_forin_None: "fold (forin_step recurse obj n) keys None = None"
  by (induction keys) (simp_all add: forin_step_def)

lemma fold_map_None: "fold (map_step callback obj n) ks None = None"
  by (induction ks) (simp_all add: map_step_def)

lemma fold_forin_inv:
  assumes cb: "\<And>h v h' r. recurse h v = Some (h', r) \<Longrightarrow> copied h v h' r"
  shows "loop_inv n h1 hi \<Longrightarrow> fold (forin_step recurse obj n) keys (Some hi) = Some hj
    \<Longrightarrow> loop_inv n h1 hj"
proof (induction keys arbitrary: hi)
  case Nil
  then show ?case by simp
next
  case (Cons key keys)
  show ?case
  proof (cases "forin_step recurse obj n key (Some hi)")
    case None
    with Cons.prems show ?thesis by (simp add: fold_forin_None)
  next
    case (Some hk)
    from forin_step_inv [OF cb Cons.prems(1) Some] Cons.prems(2) Some Cons.IH
    show ?thesis by simp
  qed
qed

lemma fold_map_inv:
  assumes cb: "\<And>h v h' r. callback h v = Some (h', r) \<Longrightarrow> copied h v h' r"
  shows "loop_inv n h1 hi \<Longrightarrow> fold (map_step callback obj n) ks (Some hi) = Some hj
    \<Longrightarrow> loop_inv n h1 hj"
proof (induction ks arbitrary: hi)
  case Nil
  then show ?case by simp
next
  case (Cons k ks)
  show ?case
  proof (cases "map_step callback obj n k (Some hi)")
    case None
    with Cons.prems show ?thesis by (simp add: fold_map_None)
  next
    case (Some hk)
    from map_step_inv [OF cb Cons.prems(1) Some] Cons.prems(2) Some Cons.IH
    show ?thesis by simp
  qed
qed

lemma loop_inv_alloc:
  "refs_obj obj = {} \<Longrightarrow> loop_inv (length h) (h @ [obj]) (h @ [obj])"
  by (auto simp add: loop_inv_def nth_append)

lemma loop_inv_result:
  assumes "loop_inv (length h) (h @ [obj]) h'"
  shows "copied h (HRef a) h' (HRef (length h))"
proof -
  from assms have l: "length h < length h'" and t: "take (length h) h' = h"
    and refs: "\<forall>b. length h \<le> b \<and> b < length h'
        \<longrightarrow> refs_obj (h' ! b) \<subseteq> {Suc (length h)..<length h'}"
    by (auto simp add: loop_inv_def)
  have sub: "{Suc (length h)..<length h'} \<subseteq> {length h..<length h'}"
    by auto
  have "\<forall>b. length h \<le> b \<and> b < length h' \<longrightarrow> refs_obj (h' ! b) \<subseteq> {length h..<length h'}"
    using refs sub by blast
  with l t show ?thesis by (simp add: copied_def)
qed

text \<open>Every call that returns leaves the store as \<open>copied\<close> says, by induction on the bound.\<close>

lemma sanitizeLogObject_heap_copied:
  "sanitizeLogObject_heap fuel h obj = Some (h', r) \<Longrightarrow> copied h obj h' r"
proof (induction fuel arbitrary: h obj h' r)
  case 0
  then show ?case by simp
next
  case (Suc fuel)
  show ?case
  proof (cases obj)
    case (HRef a)
    with Suc.prems have a: "a < length h" by (simp split: if_splits)
    show ?thesis
    proof (cases "h ! a")
      case (HArray xs)
      let ?new = "HArray (replicate (length xs) HUndefined)"
      from Suc.prems HRef a HArray
      have f: "fold (map_step (\<lambda>h v. sanitizeLogObject_heap fuel h v) a (length h)) [0..<length xs]
          (Some (h @ [?new])) = Some h'" and r: "r = HRef (length h)"
        by (auto simp add: alloc_def)
      have "loop_inv (length h) (h @ [?new]) (h @ [?new])"
        by (rule loop_inv_alloc) simp
      from fold_map_inv [OF Suc.IH this f] r HRef
      show ?thesis by (simp add: loop_inv_result)
    next
      case (HObject props)
      from Suc.prems HRef a HObject
      have f: "fold (forin_step (\<lambda>h v. sanitizeLogObject_heap fuel h v) a (length h)) (map fst props)
          (Some (h @ [HObject []])) = Some h'" and r: "r = HRef (length h)"
        by (auto simp add: alloc_def)
      have "loop_inv (length h) (h @ [HObject []]) (h @ [HObject []])"
        by (rule loop_inv_alloc) simp
      from fold_forin_inv [OF Suc.IH this f] r HRef
      show ?thesis by (simp add: loop_inv_result)
    qed
  qed (use Suc.prems in \<open>auto simp add: copied_def\<close>)
qed

subsection \<open>The store and the tree\<close>

text \<open>
  Whether a value is a given tree depends on the cells it reaches only: it is the same
  tree in every store that agrees on a set of addresses closed under reference that
  holds the addresses of the value.
\<close>

lemma repr_agree:
  assumes "repr h x t" and "refs_val x \<subseteq> S"
    and "\<forall>b\<in>S. b < length h \<longrightarrow> refs_obj (h ! b) \<subseteq> S \<and> b < length h' \<and> h' ! b = h ! b"
  shows "repr h' x t"
  using assms
proof (induction h x t rule: repr.induct)
  case (6 h0 v ts)
  from "6.prems"(1) obtain a xs where v: "v = HRef a" and a: "a < length h0"
    and xs: "h0 ! a = HArray xs" and rel: "list_all2 (repr h0) xs ts"
    by (auto split: hval.splits hobj.splits)
  from "6.prems"(2) v have aS: "a \<in> S" by simp
  with "6.prems"(3) a have "refs_obj (h0 ! a) \<subseteq> S \<and> a < length h' \<and> h' ! a = h0 ! a"
    by blast
  with xs have sub: "refs_obj (HArray xs) \<subseteq> S" and a': "a < length h'"
    and xs': "h' ! a = HArray xs"
    by simp_all
  have "list_all2 (repr h') xs ts"
    using rel
  proof (rule list.rel_mono_strong)
    fix z yb assume z: "z \<in> set xs" and yb: "yb \<in> set ts" and r: "repr h0 z yb"
    from sub z have "refs_val z \<subseteq> S" by auto
    from "6.IH" [OF v xs z yb r this "6.prems"(3)] show "repr h' z yb" .
  qed
  with v a' xs' show ?case by simp
next
  case (7 h0 v tprops)
  from "7.prems"(1) obtain a props where v: "v = HRef a" and a: "a < length h0"
    and ps: "h0 ! a = HObject props"
    and rel: "list_all2 (\<lambda>p q. fst p = fst q \<and> repr h0 (snd p) (snd q)) props tprops"
    by (auto split: hval.splits hobj.splits)
  from "7.prems"(2) v have aS: "a \<in> S" by simp
  with "7.prems"(3) a have "refs_obj (h0 ! a) \<subseteq> S \<and> a < length h' \<and> h' ! a = h0 ! a"
    by blast
  with ps have sub: "refs_obj (HObject props) \<subseteq> S" and a': "a < length h'"
    and ps': "h' ! a = HObject props"
    by simp_all
  have "list_all2 (\<lambda>p q. fst p = fst q \<and> repr h' (snd p) (snd q)) props tprops"
    using rel
  proof (rule list.rel_mono_strong)
    fix z yb assume z: "z \<in> set props" and yb: "yb \<in> set tprops"
      and r: "fst z = fst yb \<and> repr h0 (snd z) (snd yb)"
    from sub z have "refs_val (snd z) \<subseteq> S" by auto
    from "7.IH" [OF v ps z yb _ this "7.prems"(3)] r
    show "fst z = fst yb \<and> repr h' (snd z) (snd yb)" by simp
  qed
  with v a' ps' show ?case by simp
qed auto

lemma repr_extend:
  assumes "repr h x t" and "length h \<le> length h'" and "take (length h) h' = h"
  shows "repr h' x t"
proof (rule repr_agree [OF assms(1), of UNIV])
  show "refs_val x \<subseteq> UNIV" by simp
  show "\<forall>b\<in>UNIV. b < length h \<longrightarrow> refs_obj (h ! b) \<subseteq> UNIV \<and> b < length h' \<and> h' ! b = h ! b"
  proof (intro ballI impI)
    fix b assume b: "b < length h"
    then have "take (length h) h' ! b = h' ! b" by simp
    with assms b show "refs_obj (h ! b) \<subseteq> UNIV \<and> b < length h' \<and> h' ! b = h ! b" by simp
  qed
qed

text \<open>Values stored in the new object survive a write to the new object.\<close>

lemma repr_above:
  assumes inv: "loop_inv n h1 hi" and z: "refs_val z \<subseteq> {Suc n..<length hi}"
    and r: "repr hi z t" and len: "length hi \<le> length hk"
    and same: "\<forall>b. Suc n \<le> b \<and> b < length hi \<longrightarrow> hk ! b = hi ! b"
  shows "repr hk z t"
proof (rule repr_agree [OF r, of "{Suc n..}"])
  from z show "refs_val z \<subseteq> {Suc n..}" by auto
  show "\<forall>b\<in>{Suc n..}. b < length hi \<longrightarrow> refs_obj (hi ! b) \<subseteq> {Suc n..} \<and> b < length hk \<and> hk ! b = hi ! b"
  proof (intro ballI impI)
    fix b assume b: "b \<in> {Suc n..}" "b < length hi"
    with inv have "refs_obj (hi ! b) \<subseteq> {Suc n..<length hi}"
      by (simp add: loop_inv_def)
    then have "refs_obj (hi ! b) \<subseteq> {Suc n..}" by auto
    with b len same show "refs_obj (hi ! b) \<subseteq> {Suc n..} \<and> b < length hk \<and> hk ! b = hi ! b"
      by simp
  qed
qed

text \<open>
  The loop of \<open>map\<close> from the index \<open>j\<close> on: when the elements before \<open>j\<close> of the new
  array are the redactions of the elements of the tree, the loop ends with a new array
  that is the redaction of all of them.
\<close>

lemma take_prefix_nth:
  assumes "take n h' = h" and "b < n" and "n \<le> length h'"
  shows "h' ! b = h ! b"
proof -
  from assms(2) have "take n h' ! b = h' ! b" by simp
  with assms(1) show ?thesis by simp
qed

lemma fold_map_refines:
  assumes cb: "\<And>h v h' r. callback h v = Some (h', r) \<Longrightarrow> copied h v h' r"
    and ih: "\<And>t h0 x. t \<in> set ts \<Longrightarrow> repr h0 x t
        \<Longrightarrow> \<exists>h' r. callback h0 x = Some (h', r) \<and> repr h' r (sanitizeLogObject t)"
    and a: "a < length h" and xs: "h ! a = HArray xs"
    and rel: "list_all2 (repr h) xs ts"
    and n: "n = length h" and h1: "take n h1 = h"
  shows "j \<le> length xs \<Longrightarrow> loop_inv n h1 hi \<Longrightarrow> hi ! n = HArray ys \<Longrightarrow> length ys = length xs
     \<Longrightarrow> list_all2 (repr hi) (take j ys) (map sanitizeLogObject (take j ts))
     \<Longrightarrow> \<exists>hj ys'. fold (map_step callback a n) [j..<length xs] (Some hi) = Some hj
          \<and> loop_inv n h1 hj \<and> hj ! n = HArray ys' \<and> length ys' = length xs
          \<and> list_all2 (repr hj) ys' (map sanitizeLogObject ts)"
proof (induction "length xs - j" arbitrary: j hi ys)
  case 0
  then have j: "j = length xs" by simp
  from rel have "length ts = length xs" by (simp add: list_all2_lengthD)
  with 0 j show ?case by simp
next
  case (Suc d)
  then have j: "j < length xs" by simp
  from rel have lts: "length ts = length xs" by (simp add: list_all2_lengthD)
  from Suc.prems(2) have l: "n < length h1" "length h1 \<le> length hi" "take n hi = take n h1"
    and closed: "\<forall>b. n \<le> b \<and> b < length hi \<longrightarrow> refs_obj (hi ! b) \<subseteq> {Suc n..<length hi}"
    by (simp_all add: loop_inv_def)
  from l h1 have thi: "take n hi = h" by simp
  from l have nhi: "n < length hi" by simp
  from a n nhi have ahi: "a < length hi" by simp
  from take_prefix_nth [OF thi] a n nhi xs have hia: "hi ! a = HArray xs" by simp
  from ahi hia j have el: "element hi a j = Some (xs ! j)"
    by (simp add: element_def)
  from j lts have tj: "ts ! j \<in> set ts" by simp
  from rel j have "repr h (xs ! j) (ts ! j)" by (simp add: list_all2_nthD)
  then have "repr hi (xs ! j) (ts ! j)"
    using thi n nhi by (intro repr_extend [of h _ _ hi]) simp_all
  from ih [OF tj this] obtain h' r where cbr: "callback hi (xs ! j) = Some (h', r)"
    and rr: "repr h' r (sanitizeLogObject (ts ! j))"
    by blast
  note c = cb [OF cbr]
  from loop_inv_copied [OF Suc.prems(2) c]
  have inv': "loop_inv n h1 h'" and rrefs: "refs_val r \<subseteq> {Suc n..<length h'}"
    by simp_all
  from c have lh': "length hi \<le> length h'" and th': "take (length hi) h' = hi"
    by (simp_all add: copied_def)
  let ?hk = "set_element h' n j r"
  have step: "map_step callback a n j (Some hi) = Some ?hk"
    using el cbr by (simp add: map_step_def)
  from take_prefix_nth [OF th' nhi lh'] Suc.prems(3) have h'n: "h' ! n = HArray ys" by simp
  from nhi lh' have nh': "n < length h'" by simp
  from h'n nh' have hk: "?hk = h'[n := HArray (ys[j := r])]"
    by (simp add: set_element_def)
  have invk: "loop_inv n h1 ?hk"
    by (rule loop_inv_set_element [OF inv' rrefs])
  from hk nh' have hkn: "?hk ! n = HArray (ys[j := r])" by simp
  have same': "\<forall>b. Suc n \<le> b \<and> b < length h' \<longrightarrow> ?hk ! b = h' ! b"
    unfolding hk by simp
  have same: "\<forall>b. Suc n \<le> b \<and> b < length hi \<longrightarrow> ?hk ! b = hi ! b"
  proof (intro allI impI)
    fix b assume b: "Suc n \<le> b \<and> b < length hi"
    with same' lh' have "?hk ! b = h' ! b" by simp
    also from take_prefix_nth [OF th' _ lh'] b have "h' ! b = hi ! b" by simp
    finally show "?hk ! b = hi ! b" .
  qed
  have lenk: "length hi \<le> length ?hk" "length h' \<le> length ?hk"
    unfolding hk using lh' by simp_all
  from closed nhi Suc.prems(3) have ysrefs: "refs_obj (HArray ys) \<subseteq> {Suc n..<length hi}"
    by (metis order_refl)
  have old: "list_all2 (repr ?hk) (take j ys) (map sanitizeLogObject (take j ts))"
    using Suc.prems(5)
  proof (rule list.rel_mono_strong)
    fix z t assume z: "z \<in> set (take j ys)" and "repr hi z t"
    from z have "z \<in> set ys" by (rule in_set_takeD)
    with ysrefs have "refs_val z \<subseteq> {Suc n..<length hi}" by auto
    from repr_above [OF Suc.prems(2) this \<open>repr hi z t\<close> lenk(1) same]
    show "repr ?hk z t" .
  qed
  have new: "repr ?hk r (sanitizeLogObject (ts ! j))"
    by (rule repr_above [OF inv' rrefs rr lenk(2) same'])
  from j Suc.prems(4) have jy: "j < length ys" by simp
  have tk: "take (Suc j) (ys[j := r]) = take j ys @ [r]"
    using jy by (simp add: take_Suc_conv_app_nth)
  have tt: "take (Suc j) ts = take j ts @ [ts ! j]"
    using j lts by (simp add: take_Suc_conv_app_nth)
  have relk: "list_all2 (repr ?hk) (take (Suc j) (ys[j := r]))
      (map sanitizeLogObject (take (Suc j) ts))"
    unfolding tk tt using old new by (simp add: list_all2_appendI)
  from Suc.hyps(2) have d: "d = length xs - Suc j" by simp
  from j have sj: "Suc j \<le> length xs" by simp
  from Suc.prems(4) have ly: "length (ys[j := r]) = length xs" by simp
  from Suc.hyps(1) [OF d sj invk hkn ly relk]
  obtain hj ys' where "fold (map_step callback a n) [Suc j..<length xs] (Some ?hk) = Some hj"
    and "loop_inv n h1 hj" and "hj ! n = HArray ys'" and "length ys' = length xs"
    and "list_all2 (repr hj) ys' (map sanitizeLogObject ts)"
    by blast
  moreover have "[j..<length xs] = j # [Suc j..<length xs]"
    using j by (simp add: upt_conv_Cons)
  ultimately show ?case using step by auto
qed

text \<open>
  The loop \<open>for (const key in obj)\<close> from the key \<open>j\<close> on, likewise: each round appends
  to \<open>newObj\<close>, since the keys are distinct.
\<close>

lemma distinct_nth_notin_take:
  "distinct xs \<Longrightarrow> j < length xs \<Longrightarrow> xs ! j \<notin> set (take j xs)"
  by (auto simp add: in_set_conv_nth nth_eq_iff_index_eq)

lemma rel_props_keys:
  "list_all2 (\<lambda>p q. fst p = fst q \<and> R (snd p) (snd q)) ps qs \<Longrightarrow> map fst ps = map fst qs"
  by (induction ps qs rule: list_all2_induct) auto

lemma fold_forin_refines:
  assumes cb: "\<And>h v h' r. recurse h v = Some (h', r) \<Longrightarrow> copied h v h' r"
    and ih: "\<And>q h0 x. q \<in> set tprops \<Longrightarrow> fst q \<notin> set SENSITIVE_KEYS \<Longrightarrow> repr h0 x (snd q)
        \<Longrightarrow> \<exists>h' r. recurse h0 x = Some (h', r) \<and> repr h' r (sanitizeLogObject (snd q))"
    and a: "a < length h" and ps: "h ! a = HObject props"
    and dist: "distinct (map fst props)"
    and nop: "''__proto__'' \<notin> set (map fst props)"
    and rel: "list_all2 (\<lambda>p q. fst p = fst q \<and> repr h (snd p) (snd q)) props tprops"
    and n: "n = length h" and h1: "take n h1 = h"
  shows "j \<le> length props \<Longrightarrow> loop_inv n h1 hi \<Longrightarrow> hi ! n = HObject acc
     \<Longrightarrow> list_all2 (\<lambda>p q. fst p = fst q \<and> repr hi (snd p) (snd q)) acc
          (map (\<lambda>(key, v). (key, if key \<in> set SENSITIVE_KEYS then JStr REDACTED_PLACEHOLDER
                                  else sanitizeLogObject v)) (take j tprops))
     \<Longrightarrow> \<exists>hj acc'. fold (forin_step recurse a n) (drop j (map fst props)) (Some hi) = Some hj
          \<and> loop_inv n h1 hj \<and> hj ! n = HObject acc'
          \<and> list_all2 (\<lambda>p q. fst p = fst q \<and> repr hj (snd p) (snd q)) acc'
               (map (\<lambda>(key, v). (key, if key \<in> set SENSITIVE_KEYS then JStr REDACTED_PLACEHOLDER
                                       else sanitizeLogObject v)) tprops)"
proof (induction "length props - j" arbitrary: j hi acc)
  case 0
  then have j: "j = length props" by simp
  from rel have "length tprops = length props" by (simp add: list_all2_lengthD)
  with 0 j show ?case by simp
next
  case (Suc d)
  let ?G = "\<lambda>(key, v). (key, if key \<in> set SENSITIVE_KEYS then JStr REDACTED_PLACEHOLDER
      else sanitizeLogObject v)"
  from Suc have j: "j < length props" by simp
  from rel have ltp: "length tprops = length props" by (simp add: list_all2_lengthD)
  from rel have keys: "map fst props = map fst tprops" by (rule rel_props_keys)
  obtain key x where px: "props ! j = (key, x)" by (cases "props ! j")
  obtain key' t where qt: "tprops ! j = (key', t)" by (cases "tprops ! j")
  from rel j px qt have kk: "key' = key" and rx: "repr h x t"
    by (auto dest: list_all2_nthD)
  from j ltp qt have qin: "(key', t) \<in> set tprops" by (metis nth_mem)
  from j px have "(key, x) \<in> set props" by (metis nth_mem)
  with dist have mo: "map_of props key = Some x" by (rule map_of_is_SomeI)
  from Suc.prems(2) have l: "n < length h1" "length h1 \<le> length hi" "take n hi = take n h1"
    and closed: "\<forall>b. n \<le> b \<and> b < length hi \<longrightarrow> refs_obj (hi ! b) \<subseteq> {Suc n..<length hi}"
    by (simp_all add: loop_inv_def)
  from l h1 have thi: "take n hi = h" by simp
  from l have nhi: "n < length hi" by simp
  from a n nhi have ahi: "a < length hi" by simp
  from take_prefix_nth [OF thi] a n nhi ps have hia: "hi ! a = HObject props" by simp
  from ahi hia mo have own: "own_property hi a key = Some x"
    by (simp add: own_property_def)
  have "\<exists>h' r. forin_step recurse a n key (Some hi) = Some (set_property h' n key r)
      \<and> loop_inv n h1 h' \<and> refs_val r \<subseteq> {Suc n..<length h'}
      \<and> length hi \<le> length h' \<and> take (length hi) h' = hi
      \<and> repr h' r (snd (?G (key, t)))"
  proof (cases "key \<in> set SENSITIVE_KEYS")
    case True
    with own have "forin_step recurse a n key (Some hi)
        = Some (set_property hi n key (HStr REDACTED_PLACEHOLDER))"
      by (simp add: forin_step_def)
    with True Suc.prems(2) show ?thesis by auto
  next
    case False
    from rx have rhi: "repr hi x t"
      using thi n nhi by (intro repr_extend [of h _ _ hi]) simp_all
    from False kk have "fst (key', t) \<notin> set SENSITIVE_KEYS" by simp
    from ih [OF qin this, of hi x] rhi
    obtain h' r where rec: "recurse hi x = Some (h', r)"
      and rr: "repr h' r (sanitizeLogObject t)"
      by auto
    note c = cb [OF rec]
    from loop_inv_copied [OF Suc.prems(2) c]
    have "loop_inv n h1 h'" and "refs_val r \<subseteq> {Suc n..<length h'}"
      by simp_all
    moreover from c have "length hi \<le> length h'" and "take (length hi) h' = hi"
      by (simp_all add: copied_def)
    moreover from own False rec
    have "forin_step recurse a n key (Some hi) = Some (set_property h' n key r)"
      by (simp add: forin_step_def)
    ultimately show ?thesis using rr False by auto
  qed
  then obtain h' r where step: "forin_step recurse a n key (Some hi) = Some (set_property h' n key r)"
    and inv': "loop_inv n h1 h'" and rrefs: "refs_val r \<subseteq> {Suc n..<length h'}"
    and lh': "length hi \<le> length h'" and th': "take (length hi) h' = hi"
    and rr: "repr h' r (snd (?G (key, t)))"
    by blast
  let ?hk = "set_property h' n key r"
  from take_prefix_nth [OF th' nhi lh'] Suc.prems(3) have h'n: "h' ! n = HObject acc" by simp
  from nhi lh' have nh': "n < length h'" by simp
  from Suc.prems(4) have "map fst acc = map fst (map ?G (take j tprops))"
    by (rule rel_props_keys)
  also have "\<dots> = take j (map fst tprops)"
    by (simp add: take_map case_prod_beta comp_def)
  finally have acckeys: "map fst acc = take j (map fst props)"
    using keys by simp
  from distinct_nth_notin_take [OF dist, of j] j px have "key \<notin> set (take j (map fst props))"
    by simp
  with acckeys have fresh: "key \<notin> fst ` set acc"
    by (metis set_map)
  from j px nop have kp: "key \<noteq> ''__proto__''"
    by (metis fst_conv nth_map nth_mem length_map)
  from h'n nh' fresh kp have hk: "?hk = h'[n := HObject (acc @ [(key, r)])]"
    by (simp add: set_property_def update_fresh)
  have invk: "loop_inv n h1 ?hk"
    by (rule loop_inv_set_property [OF inv' rrefs])
  from hk nh' have hkn: "?hk ! n = HObject (acc @ [(key, r)])" by simp
  have same': "\<forall>b. Suc n \<le> b \<and> b < length h' \<longrightarrow> ?hk ! b = h' ! b"
    unfolding hk by simp
  have same: "\<forall>b. Suc n \<le> b \<and> b < length hi \<longrightarrow> ?hk ! b = hi ! b"
  proof (intro allI impI)
    fix b assume b: "Suc n \<le> b \<and> b < length hi"
    with same' lh' have "?hk ! b = h' ! b" by simp
    also from take_prefix_nth [OF th' _ lh'] b have "h' ! b = hi ! b" by simp
    finally show "?hk ! b = hi ! b" .
  qed
  have lenk: "length hi \<le> length ?hk" "length h' \<le> length ?hk"
    unfolding hk using lh' by simp_all
  from closed nhi Suc.prems(3) have accrefs: "refs_obj (HObject acc) \<subseteq> {Suc n..<length hi}"
    by (metis order_refl)
  have old: "list_all2 (\<lambda>p q. fst p = fst q \<and> repr ?hk (snd p) (snd q)) acc
      (map ?G (take j tprops))"
    using Suc.prems(4)
  proof (rule list.rel_mono_strong)
    fix z q assume z: "z \<in> set acc" and zq: "fst z = fst q \<and> repr hi (snd z) (snd q)"
    from z accrefs have "refs_val (snd z) \<subseteq> {Suc n..<length hi}" by auto
    from repr_above [OF Suc.prems(2) this _ lenk(1) same] zq
    show "fst z = fst q \<and> repr ?hk (snd z) (snd q)" by simp
  qed
  have new: "repr ?hk r (snd (?G (key, t)))"
    by (rule repr_above [OF inv' rrefs rr lenk(2) same'])
  have tt: "take (Suc j) tprops = take j tprops @ [(key, t)]"
    using j ltp qt kk by (simp add: take_Suc_conv_app_nth)
  have relk: "list_all2 (\<lambda>p q. fst p = fst q \<and> repr ?hk (snd p) (snd q)) (acc @ [(key, r)])
      (map ?G (take (Suc j) tprops))"
    unfolding tt using old new by (simp add: list_all2_appendI)
  from Suc.hyps(2) have d: "d = length props - Suc j" by simp
  from j have sj: "Suc j \<le> length props" by simp
  from Suc.hyps(1) [OF d sj invk hkn relk]
  obtain hj acc' where "fold (forin_step recurse a n) (drop (Suc j) (map fst props)) (Some ?hk)
      = Some hj"
    and "loop_inv n h1 hj" and "hj ! n = HObject acc'"
    and "list_all2 (\<lambda>p q. fst p = fst q \<and> repr hj (snd p) (snd q)) acc' (map ?G tprops)"
    by blast
  moreover have "drop j (map fst props) = key # drop (Suc j) (map fst props)"
    using j px by (simp add: Cons_nth_drop_Suc [symmetric])
  ultimately show ?case using step by auto
qed

text \<open>
  On a store where the argument is a tree, a bound above the depth of the tree is
  enough, and the result is the redaction of the tree.
\<close>

lemma fold_max_ge: "(a::nat) \<le> fold max xs a"
proof (induction xs arbitrary: a)
  case Nil
  show ?case by simp
next
  case (Cons x xs)
  have "a \<le> max x a" by simp
  also have "\<dots> \<le> fold max xs (max x a)" by (rule Cons.IH)
  finally show ?case by simp
qed

lemma fold_max_mem: "(x::nat) \<in> set xs \<Longrightarrow> x \<le> fold max xs a"
proof (induction xs arbitrary: a)
  case Nil
  then show ?case by simp
next
  case (Cons y ys)
  show ?case
  proof (cases "x = y")
    case True
    have "x \<le> max y a" using True by simp
    also have "\<dots> \<le> fold max ys (max y a)" by (rule fold_max_ge)
    finally show ?thesis by simp
  next
    case False
    with Cons.prems have "x \<in> set ys" by simp
    from Cons.IH [OF this] show ?thesis by simp
  qed
qed

lemma sanitizeLogObject_heap_refines:
  "repr h v t \<Longrightarrow> wf_val t \<Longrightarrow> depth t < fuel
   \<Longrightarrow> \<exists>h' r. sanitizeLogObject_heap fuel h v = Some (h', r) \<and> repr h' r (sanitizeLogObject t)"
proof (induction t arbitrary: h v fuel rule: sanitizeLogObject.induct)
  case 1
  then show ?case by (cases fuel) simp_all
next
  case 2
  then show ?case by (cases fuel) simp_all
next
  case (3 b)
  then show ?case by (cases fuel) simp_all
next
  case (4 n)
  then show ?case by (cases fuel) simp_all
next
  case (5 s)
  then show ?case by (cases fuel) simp_all
next
  case (6 ts)
  from "6.prems"(3) obtain f where fuel: "fuel = Suc f" and f: "fold max (map depth ts) 0 < f"
    by (cases fuel) auto
  from "6.prems"(1) obtain a xs where v: "v = HRef a" and a: "a < length h"
    and xs: "h ! a = HArray xs" and rel: "list_all2 (repr h) xs ts"
    by (auto split: hval.splits hobj.splits)
  let ?new = "HArray (replicate (length xs) HUndefined)"
  let ?h1 = "h @ [?new]"
  let ?n = "length h"
  have ih: "\<And>t h0 x. t \<in> set ts \<Longrightarrow> repr h0 x t
      \<Longrightarrow> \<exists>h' r. sanitizeLogObject_heap f h0 x = Some (h', r) \<and> repr h' r (sanitizeLogObject t)"
  proof -
    fix t h0 x assume t: "t \<in> set ts" and r: "repr h0 x t"
    from t "6.prems"(2) have w: "wf_val t" by (simp add: list_all_iff)
    from t have "depth t \<le> fold max (map depth ts) 0" by (intro fold_max_mem) simp
    with f have "depth t < f" by simp
    from "6.IH" [OF t r w this]
    show "\<exists>h' r. sanitizeLogObject_heap f h0 x = Some (h', r) \<and> repr h' r (sanitizeLogObject t)" .
  qed
  have inv: "loop_inv ?n ?h1 ?h1" by (rule loop_inv_alloc) simp
  have "\<exists>hj ys'. fold (map_step (\<lambda>h v. sanitizeLogObject_heap f h v) a ?n) [0..<length xs] (Some ?h1) = Some hj
      \<and> loop_inv ?n ?h1 hj \<and> hj ! ?n = HArray ys' \<and> length ys' = length xs
      \<and> list_all2 (repr hj) ys' (map sanitizeLogObject ts)"
    by (rule fold_map_refines [where h = h and ts = ts and ys = "replicate (length xs) HUndefined",
          OF sanitizeLogObject_heap_copied ih a xs rel _ _ _ inv])
      simp_all
  then obtain hj ys' where
    fo: "fold (map_step (\<lambda>h v. sanitizeLogObject_heap f h v) a ?n) [0..<length xs] (Some ?h1) = Some hj"
    and invj: "loop_inv ?n ?h1 hj" and hjn: "hj ! ?n = HArray ys'"
    and relj: "list_all2 (repr hj) ys' (map sanitizeLogObject ts)"
    by blast
  from invj have "?n < length hj" by (simp add: loop_inv_def)
  with hjn relj have "repr hj (HRef ?n) (sanitizeLogObject (JArr ts))" by simp
  moreover from fuel v a xs fo have "sanitizeLogObject_heap fuel h v = Some (hj, HRef ?n)"
    by (simp add: alloc_def)
  ultimately show ?case by blast
next
  case (7 tprops)
  let ?G = "\<lambda>(key, v). (key, if key \<in> set SENSITIVE_KEYS then JStr REDACTED_PLACEHOLDER
      else sanitizeLogObject v)"
  from "7.prems"(3) obtain f where fuel: "fuel = Suc f"
    and f: "fold max (map (\<lambda>(k, t). depth t) tprops) 0 < f"
    by (cases fuel) auto
  from "7.prems"(1) obtain a props where v: "v = HRef a" and a: "a < length h"
    and ps: "h ! a = HObject props"
    and rel: "list_all2 (\<lambda>p q. fst p = fst q \<and> repr h (snd p) (snd q)) props tprops"
    by (auto split: hval.splits hobj.splits)
  from "7.prems"(2) have dt: "distinct (map fst tprops)" by simp
  from rel have "map fst props = map fst tprops" by (rule rel_props_keys)
  with dt have dist: "distinct (map fst props)" by simp
  from "7.prems"(2) have npt: "''__proto__'' \<notin> set (map fst tprops)" by simp
  with \<open>map fst props = map fst tprops\<close> have nop: "''__proto__'' \<notin> set (map fst props)"
    by simp
  let ?h1 = "h @ [HObject []]"
  let ?n = "length h"
  have ih: "\<And>q h0 x. q \<in> set tprops \<Longrightarrow> fst q \<notin> set SENSITIVE_KEYS \<Longrightarrow> repr h0 x (snd q)
      \<Longrightarrow> \<exists>h' r. sanitizeLogObject_heap f h0 x = Some (h', r) \<and> repr h' r (sanitizeLogObject (snd q))"
  proof -
    fix q h0 x assume q: "q \<in> set tprops" and k: "fst q \<notin> set SENSITIVE_KEYS"
      and r: "repr h0 x (snd q)"
    from q "7.prems"(2) have w: "wf_val (snd q)" by (auto simp add: list_all_iff)
    from q have "depth (snd q) \<in> set (map (\<lambda>(k, t). depth t) tprops)"
      by (force simp add: case_prod_beta)
    then have "depth (snd q) \<le> fold max (map (\<lambda>(k, t). depth t) tprops) 0"
      by (rule fold_max_mem)
    with f have "depth (snd q) < f" by simp
    from "7.IH" [OF q _ k r w this]
    show "\<exists>h' r. sanitizeLogObject_heap f h0 x = Some (h', r) \<and> repr h' r (sanitizeLogObject (snd q))"
      by simp
  qed
  have inv: "loop_inv ?n ?h1 ?h1" by (rule loop_inv_alloc) simp
  have "\<exists>hj acc'. fold (forin_step (\<lambda>h v. sanitizeLogObject_heap f h v) a ?n) (drop 0 (map fst props))
        (Some ?h1) = Some hj
      \<and> loop_inv ?n ?h1 hj \<and> hj ! ?n = HObject acc'
      \<and> list_all2 (\<lambda>p q. fst p = fst q \<and> repr hj (snd p) (snd q)) acc' (map ?G tprops)"
    by (rule fold_forin_refines [where h = h and tprops = tprops and acc = "[]",
          OF sanitizeLogObject_heap_copied ih a ps dist nop rel _ _ _ inv])
      simp_all
  then obtain hj acc' where
    fo: "fold (forin_step (\<lambda>h v. sanitizeLogObject_heap f h v) a ?n) (map fst props) (Some ?h1) = Some hj"
    and invj: "loop_inv ?n ?h1 hj" and hjn: "hj ! ?n = HObject acc'"
    and relj: "list_all2 (\<lambda>p q. fst p = fst q \<and> repr hj (snd p) (snd q)) acc' (map ?G tprops)"
    by auto
  from invj have "?n < length hj" by (simp add: loop_inv_def)
  with hjn relj have "repr hj (HRef ?n) (JObj (map ?G tprops))" by simp
  then have "repr hj (HRef ?n) (sanitizeLogObject (JObj tprops))"
    by (simp only: sanitize_object [OF dt npt])
  moreover from fuel v a ps fo have "sanitizeLogObject_heap fuel h v = Some (hj, HRef ?n)"
    by (simp add: alloc_def)
  ultimately show ?case by blast
qed
text \<open>A structure that contains itself is never finished: at every bound the result is \<open>None\<close>.\<close>

lemma sanitizeLogObject_heap_cyclic:
  "0 < length h \<Longrightarrow> h ! 0 = HObject [(''self'', HRef 0)]
   \<Longrightarrow> sanitizeLogObject_heap fuel h (HRef 0) = None"
proof (induction fuel arbitrary: h)
  case 0
  show ?case by simp
next
  case (Suc fuel)
  let ?h1 = "h @ [HObject []]"
  from Suc.prems have "0 < length ?h1" and "?h1 ! 0 = HObject [(''self'', HRef 0)]"
    by (simp_all add: nth_append)
  then have rec: "sanitizeLogObject_heap fuel ?h1 (HRef 0) = None"
    by (rule Suc.IH)
  from Suc.prems have own: "own_property ?h1 0 ''self'' = Some (HRef 0)"
    by (simp add: own_property_def nth_append)
  have "''self'' \<notin> set SENSITIVE_KEYS"
    by (simp add: SENSITIVE_KEYS_def)
  with own rec
  have "forin_step (\<lambda>h v. sanitizeLogObject_heap fuel h v) 0 (length h) ''self'' (Some ?h1) = None"
    by (simp add: forin_step_def)
  with Suc.prems show ?case
    by (simp add: alloc_def)
qed

lemma sanitizeLogObject_heap_cyclic_heap:
  "sanitizeLogObject_heap fuel cyclic_heap (HRef 0) = None"
  by (rule sanitizeLogObject_heap_cyclic) (simp_all add: cyclic_heap_def)

text \<open>
  C9: \<open>sanitizeLogObject\<close> does not change its argument. Whenever a call returns, from
  any store and for any argument, every cell of the store before the call is in the
  store after it, unchanged; the cells the call has added, and the result, hold
  addresses of added cells only, so the result shares no object or array with the
  argument; the result of an object or array is a new cell, and a primitive is returned
  as it is without any allocation. When the argument is a finite tree \<open>t\<close> of plain data
  the call does return, within the depth of \<open>t\<close>: the argument is still \<open>t\<close> after the
  call, and the result is the redaction of \<open>t\<close>.
\<close>

theorem sanitizeLogObject_does_not_mutate:
  "(\<forall>fuel h' r. sanitizeLogObject_heap fuel h obj = Some (h', r) \<longrightarrow>
       length h \<le> length h' \<and> take (length h) h' = h
       \<and> (\<forall>b. length h \<le> b \<and> b < length h' \<longrightarrow> refs_obj (h' ! b) \<subseteq> {length h..<length h'})
       \<and> refs_val r \<subseteq> {length h..<length h'}
       \<and> (case obj of HRef a \<Rightarrow> (\<exists>b. r = HRef b) | _ \<Rightarrow> r = obj \<and> h' = h))
   \<and> (\<forall>t. repr h obj t \<and> wf_val t \<longrightarrow>
        (\<exists>h' r. sanitizeLogObject_heap (Suc (depth t)) h obj = Some (h', r)
           \<and> take (length h) h' = h
           \<and> repr h' obj t
           \<and> repr h' r (sanitizeLogObject t)))"
proof -
  have a: "\<forall>fuel h' r. sanitizeLogObject_heap fuel h obj = Some (h', r) \<longrightarrow>
       length h \<le> length h' \<and> take (length h) h' = h
       \<and> (\<forall>b. length h \<le> b \<and> b < length h' \<longrightarrow> refs_obj (h' ! b) \<subseteq> {length h..<length h'})
       \<and> refs_val r \<subseteq> {length h..<length h'}
       \<and> (case obj of HRef a \<Rightarrow> (\<exists>b. r = HRef b) | _ \<Rightarrow> r = obj \<and> h' = h)"
  proof (intro allI impI)
    fix fuel h' r assume "sanitizeLogObject_heap fuel h obj = Some (h', r)"
    then have "copied h obj h' r" by (rule sanitizeLogObject_heap_copied)
    then show "length h \<le> length h' \<and> take (length h) h' = h
       \<and> (\<forall>b. length h \<le> b \<and> b < length h' \<longrightarrow> refs_obj (h' ! b) \<subseteq> {length h..<length h'})
       \<and> refs_val r \<subseteq> {length h..<length h'}
       \<and> (case obj of HRef a \<Rightarrow> (\<exists>b. r = HRef b) | _ \<Rightarrow> r = obj \<and> h' = h)"
      by (simp add: copied_def)
  qed
  have b: "\<forall>t. repr h obj t \<and> wf_val t \<longrightarrow>
        (\<exists>h' r. sanitizeLogObject_heap (Suc (depth t)) h obj = Some (h', r)
           \<and> take (length h) h' = h
           \<and> repr h' obj t
           \<and> repr h' r (sanitizeLogObject t))"
  proof (intro allI impI)
    fix t assume t: "repr h obj t \<and> wf_val t"
    then have "\<exists>h' r. sanitizeLogObject_heap (Suc (depth t)) h obj = Some (h', r)
        \<and> repr h' r (sanitizeLogObject t)"
      by (intro sanitizeLogObject_heap_refines) simp_all
    then obtain h' r where s: "sanitizeLogObject_heap (Suc (depth t)) h obj = Some (h', r)"
      and r: "repr h' r (sanitizeLogObject t)"
      by blast
    from s a have l: "length h \<le> length h'" and k: "take (length h) h' = h"
      by blast+
    from t l k have "repr h' obj t"
      by (intro repr_extend [of h obj t h']) simp_all
    with s r k show "\<exists>h' r. sanitizeLogObject_heap (Suc (depth t)) h obj = Some (h', r)
           \<and> take (length h) h' = h
           \<and> repr h' obj t
           \<and> repr h' r (sanitizeLogObject t)"
      by blast
  qed
  from a b show ?thesis by blast
qed

text \<open>
  On the log record in the store: the call at depth 4 returns the address \<open>4\<close> of a new
  object and leaves the four cells of the argument as they were; the four cells added
  are the redacted copy.
\<close>

theorem sanitizeLogObject_does_not_mutate_witness:
  "repr log_heap (HRef 0) log_record \<and> wf_val log_record \<and> depth log_record = 3
   \<and> sanitizeLogObject_heap 4 log_heap (HRef 0)
      = Some (log_heap @
          [HObject [(''branch_key'', HStr ''[REDACTED]''), (''nested'', HRef 5),
                    (''items'', HRef 6)],
           HObject [(''auth_token'', HStr ''[REDACTED]''), (''ok'', HStr ''v'')],
           HArray [HRef 7],
           HObject [(''api_key'', HStr ''[REDACTED]''), (''n'', HNum 1)]],
          HRef 4)
   \<and> (\<exists>h' r. sanitizeLogObject_heap 4 log_heap (HRef 0) = Some (h', r)
         \<and> take (length log_heap) h' = log_heap
         \<and> repr h' (HRef 0) log_record
         \<and> repr h' r (sanitizeLogObject log_record))"
proof -
  have r: "repr log_heap (HRef 0) log_record"
    by (simp add: log_heap_def log_record_def)
  have w: "wf_val log_record"
    by (simp add: log_record_def)
  have d: "depth log_record = 3"
    by (simp add: log_record_def)
  have e: "sanitizeLogObject_heap 4 log_heap (HRef 0)
      = Some (log_heap @
          [HObject [(''branch_key'', HStr ''[REDACTED]''), (''nested'', HRef 5),
                    (''items'', HRef 6)],
           HObject [(''auth_token'', HStr ''[REDACTED]''), (''ok'', HStr ''v'')],
           HArray [HRef 7],
           HObject [(''api_key'', HStr ''[REDACTED]''), (''n'', HNum 1)]],
          HRef 4)"
    by (simp add: log_heap_def numeral_eq_Suc alloc_def forin_step_def map_step_def
        own_property_def set_property_def element_def set_element_def SENSITIVE_KEYS_def
        REDACTED_PLACEHOLDER_def upt_rec)
  from sanitizeLogObject_does_not_mutate [of log_heap "HRef 0"] r w
  have "\<exists>h' r. sanitizeLogObject_heap (Suc (depth log_record)) log_heap (HRef 0) = Some (h', r)
         \<and> take (length log_heap) h' = log_heap
         \<and> repr h' (HRef 0) log_record
         \<and> repr h' r (sanitizeLogObject log_record)"
    by blast
  then have x: "\<exists>h' r. sanitizeLogObject_heap 4 log_heap (HRef 0) = Some (h', r)
         \<and> take (length log_heap) h' = log_heap
         \<and> repr h' (HRef 0) log_record
         \<and> repr h' r (sanitizeLogObject log_record)"
    by (simp add: d)
  from r w d e x show ?thesis by blast
qed

end
